theory Spec2Isabelle
  imports Main "HOL-Library.Word"
begin

unbundle bit_operations_syntax

section \<open>Types, constants and collaborators of \<^verbatim>\<open>tlb.c\<close>\<close>

text \<open>
  The headers \<^verbatim>\<open>tlb.h\<close>, \<^verbatim>\<open>constants.h\<close>, \<^verbatim>\<open>clock.h\<close>, \<^verbatim>\<open>memory.h\<close> and
  \<^verbatim>\<open>page_table.h\<close> are not among the sources. Their parts are taken as follows.
  \<^item> Addresses are 64-bit words: the code casts \<^verbatim>\<open>va_t\<close> and \<^verbatim>\<open>pa_dram_t\<close> to and from
    \<^verbatim>\<open>uint64_t\<close>. Times are natural numbers.
  \<^item> The macros of \<^verbatim>\<open>constants.h\<close> are the fields of a record \<open>config\<close>, which every
    function that uses one of them takes as its first argument. Nothing is assumed about
    their values but what a theorem states.
  \<^item> The three external functions \<^verbatim>\<open>increment_time\<close>, \<^verbatim>\<open>page_table_translate\<close> and
    \<^verbatim>\<open>write_back_tlb_entry\<close> are modelled by the trace of the calls made to them: the
    state has a field \<open>trace\<close>, and a call appends one event. They do not call back into
    \<^verbatim>\<open>tlb.c\<close> and do not write its globals.
\<close>

type_synonym va_t = "64 word"
type_synonym pa_dram_t = "64 word"
type_synonym time_ns_t = nat

datatype op_t = OP_READ | OP_WRITE

text \<open>One event per call that \<^verbatim>\<open>tlb.c\<close> makes to a collaborator, in call order.\<close>

datatype event =
    IncrementTime time_ns_t
  | PageTableTranslate va_t op_t
  | WriteBackTlbEntry pa_dram_t

text \<open>
  The field \<open>resolver\<close> is what \<^verbatim>\<open>page_table_translate\<close> returns; it may depend on
  every call made to the collaborators so far.
\<close>

record config =
  PAGE_SIZE_BITS :: nat
  PAGE_OFFSET_MASK :: "64 word"
  TLB_L1_SIZE :: nat
  TLB_L2_SIZE :: nat
  TLB_L1_LATENCY_NS :: nat
  TLB_L2_LATENCY_NS :: nat
  resolver :: "event list \<Rightarrow> va_t \<Rightarrow> op_t \<Rightarrow> pa_dram_t"

record tlb_entry_t =
  valid :: bool
  dirty :: bool
  last_access :: "64 word"
  virtual_page_number :: va_t
  physical_page_number :: pa_dram_t

text \<open>
  The globals of the file. The arrays \<^verbatim>\<open>tlb_l1[TLB_L1_SIZE]\<close> and
  \<^verbatim>\<open>tlb_l2[TLB_L2_SIZE]\<close> are lists; a loop bound \<^verbatim>\<open>TLB_L1_SIZE\<close> is the length of the
  list. The counters and the two logical clocks are \<^verbatim>\<open>uint64_t\<close>: \<open>+ 1\<close> wraps.
\<close>

record tlb_state =
  tlb_l1 :: "tlb_entry_t list"
  tlb_l2 :: "tlb_entry_t list"
  tlb_l1_hits :: "64 word"
  tlb_l1_misses :: "64 word"
  tlb_l1_invalidations :: "64 word"
  tlb_l2_hits :: "64 word"
  tlb_l2_misses :: "64 word"
  tlb_l2_invalidations :: "64 word"
  lru_tick :: "64 word"
  lru_tick2 :: "64 word"
  trace :: "event list"

text \<open>
  Modelled from the spec: the three collaborators of its section 6, whose code
  (\<^verbatim>\<open>clock.c\<close>, \<^verbatim>\<open>memory.c\<close>, \<^verbatim>\<open>page_table.c\<close>) is not among the sources. The
  clock ``advances simulated time by a given number of time units, with no return value'',
  the write-back sink takes ``a physical address'' and has ``no return value'', and the
  resolver takes ``a virtual address and an access kind, returning a physical address''.
\<close>

definition increment_time :: "time_ns_t \<Rightarrow> tlb_state \<Rightarrow> tlb_state" where
  "increment_time t s = s\<lparr>trace := trace s @ [IncrementTime t]\<rparr>"

definition write_back_tlb_entry :: "pa_dram_t \<Rightarrow> tlb_state \<Rightarrow> tlb_state" where
  "write_back_tlb_entry pa s = s\<lparr>trace := trace s @ [WriteBackTlbEntry pa]\<rparr>"

definition page_table_translate ::
  "config \<Rightarrow> va_t \<Rightarrow> op_t \<Rightarrow> tlb_state \<Rightarrow> pa_dram_t \<times> tlb_state" where
  "page_table_translate c va op s =
     (resolver c (trace s) va op, s\<lparr>trace := trace s @ [PageTableTranslate va op]\<rparr>)"

section \<open>Address decomposition\<close>

definition va_to_vpn :: "config \<Rightarrow> va_t \<Rightarrow> va_t" where
  "va_to_vpn c va = drop_bit (PAGE_SIZE_BITS c) va"

definition va_offset :: "config \<Rightarrow> va_t \<Rightarrow> 32 word" where
  "va_offset c va = ucast (va AND PAGE_OFFSET_MASK c)"

definition pa_to_ppn :: "config \<Rightarrow> pa_dram_t \<Rightarrow> 64 word" where
  "pa_to_ppn c pa = drop_bit (PAGE_SIZE_BITS c) pa"

definition compose_pa :: "config \<Rightarrow> 64 word \<Rightarrow> 32 word \<Rightarrow> pa_dram_t" where
  "compose_pa c ppn off = push_bit (PAGE_SIZE_BITS c) ppn OR ucast off"

section \<open>Initialisation, lookup and victim selection\<close>

definition zero_entry :: tlb_entry_t where
  "zero_entry = \<lparr>valid = False, dirty = False, last_access = 0,
     virtual_page_number = 0, physical_page_number = 0\<rparr>"

definition tlb_init :: "config \<Rightarrow> tlb_state \<Rightarrow> tlb_state" where
  "tlb_init c s = s\<lparr>tlb_l1 := replicate (TLB_L1_SIZE c) zero_entry,
     tlb_l2 := replicate (TLB_L2_SIZE c) zero_entry,
     tlb_l1_hits := 0, tlb_l1_misses := 0, tlb_l1_invalidations := 0,
     tlb_l2_hits := 0, tlb_l2_misses := 0, tlb_l2_invalidations := 0,
     lru_tick := 0, lru_tick2 := 0\<rparr>"

text \<open>
  The loop of \<^verbatim>\<open>l1_find\<close> and \<^verbatim>\<open>l2_find\<close>, from index \<open>i\<close>: the first valid entry with
  the VPN, or -1.
\<close>

function find_loop :: "tlb_entry_t list \<Rightarrow> va_t \<Rightarrow> nat \<Rightarrow> int" where
  "find_loop es vpn i =
     (if i < length es then
        (if valid (es ! i) \<and> virtual_page_number (es ! i) = vpn then int i
         else find_loop es vpn (Suc i))
      else - 1)"
  by pat_completeness auto
termination
  by (relation "measure (\<lambda>(es, vpn, i). length es - i)") auto

declare find_loop.simps [simp del]

definition l1_find :: "tlb_state \<Rightarrow> va_t \<Rightarrow> int" where
  "l1_find s vpn = find_loop (tlb_l1 s) vpn 0"

definition l2_find :: "tlb_state \<Rightarrow> va_t \<Rightarrow> int" where
  "l2_find s vpn = find_loop (tlb_l2 s) vpn 0"

text \<open>The first loop of the victim selection: the first invalid slot from \<open>i\<close>, or -1.\<close>

function free_loop :: "tlb_entry_t list \<Rightarrow> nat \<Rightarrow> int" where
  "free_loop es i =
     (if i < length es then
        (if \<not> valid (es ! i) then int i else free_loop es (Suc i))
      else - 1)"
  by pat_completeness auto
termination
  by (relation "measure (\<lambda>(es, i). length es - i)") auto

declare free_loop.simps [simp del]

text \<open>The second loop: the running minimum of \<open>last_access\<close>, replaced only by a
  strictly smaller value.\<close>

function lru_loop :: "tlb_entry_t list \<Rightarrow> nat \<Rightarrow> int \<Rightarrow> 64 word \<Rightarrow> int" where
  "lru_loop es i victim best =
     (if i < length es then
        (if last_access (es ! i) < best then lru_loop es (Suc i) (int i) (last_access (es ! i))
         else lru_loop es (Suc i) victim best)
      else victim)"
  by pat_completeness auto
termination
  by (relation "measure (\<lambda>(es, i, victim, best). length es - i)") auto

declare lru_loop.simps [simp del]

definition choose_victim :: "tlb_entry_t list \<Rightarrow> int" where
  "choose_victim es =
     (let f = free_loop es 0 in
      if 0 \<le> f then f else lru_loop es 1 0 (last_access (es ! 0)))"

definition l1_choose_victim :: "tlb_state \<Rightarrow> int" where
  "l1_choose_victim s = choose_victim (tlb_l1 s)"

definition l2_choose_victim :: "tlb_state \<Rightarrow> int" where
  "l2_choose_victim s = choose_victim (tlb_l2 s)"

section \<open>Eviction and insertion\<close>

text \<open>Assignments to the fields of \<^verbatim>\<open>tlb_l1[i]\<close> and \<^verbatim>\<open>tlb_l2[i]\<close>.\<close>

definition l1_upd :: "nat \<Rightarrow> (tlb_entry_t \<Rightarrow> tlb_entry_t) \<Rightarrow> tlb_state \<Rightarrow> tlb_state" where
  "l1_upd i f s = s\<lparr>tlb_l1 := (tlb_l1 s)[i := f (tlb_l1 s ! i)]\<rparr>"

definition l2_upd :: "nat \<Rightarrow> (tlb_entry_t \<Rightarrow> tlb_entry_t) \<Rightarrow> tlb_state \<Rightarrow> tlb_state" where
  "l2_upd i f s = s\<lparr>tlb_l2 := (tlb_l2 s)[i := f (tlb_l2 s ! i)]\<rparr>"

definition reset_entry :: "tlb_entry_t \<Rightarrow> tlb_entry_t" where
  "reset_entry e = e\<lparr>valid := False, dirty := False, last_access := 0\<rparr>"

definition l2_evict_entry :: "config \<Rightarrow> int \<Rightarrow> tlb_state \<Rightarrow> tlb_state" where
  "l2_evict_entry c idx s =
     (if idx < 0 then s
      else
        let e = tlb_l2 s ! nat idx;
            s1 = (if valid e \<and> dirty e
                  then write_back_tlb_entry (compose_pa c (physical_page_number e) 0) s
                  else s)
        in l2_upd (nat idx) reset_entry s1)"

definition l2_insert :: "config \<Rightarrow> va_t \<Rightarrow> 64 word \<Rightarrow> bool \<Rightarrow> tlb_state \<Rightarrow> tlb_state" where
  "l2_insert c vpn ppn d s =
     (let idx = l2_find s vpn in
      if 0 \<le> idx then
        (let s1 = s\<lparr>lru_tick2 := lru_tick2 s + 1\<rparr>
         in l2_upd (nat idx)
              (\<lambda>e. e\<lparr>physical_page_number := ppn, dirty := (dirty e \<or> d),
                     last_access := lru_tick2 s1, valid := True\<rparr>) s1)
      else
        (let victim = l2_choose_victim s;
             s1 = l2_evict_entry c victim s;
             s2 = s1\<lparr>lru_tick2 := lru_tick2 s1 + 1\<rparr>
         in l2_upd (nat victim)
              (\<lambda>e. e\<lparr>valid := True, dirty := d, last_access := lru_tick2 s2,
                     virtual_page_number := vpn, physical_page_number := ppn\<rparr>) s2))"

definition l1_evict_entry :: "config \<Rightarrow> int \<Rightarrow> tlb_state \<Rightarrow> tlb_state" where
  "l1_evict_entry c idx s =
     (if idx < 0 then s
      else
        let e = tlb_l1 s ! nat idx;
            s1 = (if valid e \<and> dirty e
                  then l2_insert c (virtual_page_number e) (physical_page_number e) True s
                  else s)
        in l1_upd (nat idx) reset_entry s1)"

definition l1_insert :: "config \<Rightarrow> va_t \<Rightarrow> 64 word \<Rightarrow> bool \<Rightarrow> tlb_state \<Rightarrow> tlb_state" where
  "l1_insert c vpn ppn d s =
     (let idx = l1_find s vpn in
      if 0 \<le> idx then
        (let s1 = s\<lparr>lru_tick := lru_tick s + 1\<rparr>
         in l1_upd (nat idx)
              (\<lambda>e. e\<lparr>physical_page_number := ppn, dirty := (dirty e \<or> d),
                     last_access := lru_tick s1, valid := True\<rparr>) s1)
      else
        (let victim = l1_choose_victim s;
             s1 = l1_evict_entry c victim s;
             s2 = s1\<lparr>lru_tick := lru_tick s1 + 1\<rparr>
         in l1_upd (nat victim)
              (\<lambda>e. e\<lparr>valid := True, dirty := d, last_access := lru_tick s2,
                     virtual_page_number := vpn, physical_page_number := ppn\<rparr>) s2))"

section \<open>Invalidation\<close>

text \<open>The two loops of \<^verbatim>\<open>tlb_invalidate\<close>; each stops at the first match (\<^verbatim>\<open>break\<close>).\<close>

function invalidate_l1_loop :: "config \<Rightarrow> va_t \<Rightarrow> nat \<Rightarrow> tlb_state \<Rightarrow> tlb_state" where
  "invalidate_l1_loop c vpn i s =
     (if i < length (tlb_l1 s) then
        (if valid (tlb_l1 s ! i) \<and> virtual_page_number (tlb_l1 s ! i) = vpn then
           (let s1 = (if dirty (tlb_l1 s ! i)
                      then l2_insert c (virtual_page_number (tlb_l1 s ! i))
                             (physical_page_number (tlb_l1 s ! i)) True s
                      else s);
                s2 = l1_upd i reset_entry s1
            in s2\<lparr>tlb_l1_invalidations := tlb_l1_invalidations s2 + 1\<rparr>)
         else invalidate_l1_loop c vpn (Suc i) s)
      else s)"
  by pat_completeness auto
termination
  by (relation "measure (\<lambda>(c, vpn, i, s). length (tlb_l1 s) - i)") auto

declare invalidate_l1_loop.simps [simp del]

function invalidate_l2_loop :: "config \<Rightarrow> va_t \<Rightarrow> nat \<Rightarrow> tlb_state \<Rightarrow> tlb_state" where
  "invalidate_l2_loop c vpn i s =
     (if i < length (tlb_l2 s) then
        (if valid (tlb_l2 s ! i) \<and> virtual_page_number (tlb_l2 s ! i) = vpn then
           (let s1 = (if dirty (tlb_l2 s ! i)
                      then write_back_tlb_entry
                             (compose_pa c (physical_page_number (tlb_l2 s ! i)) 0) s
                      else s);
                s2 = l2_upd i reset_entry s1
            in s2\<lparr>tlb_l2_invalidations := tlb_l2_invalidations s2 + 1\<rparr>)
         else invalidate_l2_loop c vpn (Suc i) s)
      else s)"
  by pat_completeness auto
termination
  by (relation "measure (\<lambda>(c, vpn, i, s). length (tlb_l2 s) - i)") auto

declare invalidate_l2_loop.simps [simp del]

definition tlb_invalidate :: "config \<Rightarrow> va_t \<Rightarrow> tlb_state \<Rightarrow> tlb_state" where
  "tlb_invalidate c vpn s =
     invalidate_l2_loop c vpn 0
       (invalidate_l1_loop c vpn 0
          (increment_time (TLB_L1_LATENCY_NS c + TLB_L2_LATENCY_NS c) s))"

section \<open>Translation\<close>

definition tlb_translate ::
  "config \<Rightarrow> va_t \<Rightarrow> op_t \<Rightarrow> tlb_state \<Rightarrow> pa_dram_t \<times> tlb_state" where
  "tlb_translate c virtual_address op s0 =
     (let s = increment_time (TLB_L1_LATENCY_NS c) s0;
          vpn = va_to_vpn c virtual_address;
          off = va_offset c virtual_address;
          idx1 = l1_find s vpn
      in
      if 0 \<le> idx1 then
        (let s = s\<lparr>tlb_l1_hits := tlb_l1_hits s + 1\<rparr>;
             s = s\<lparr>lru_tick := lru_tick s + 1\<rparr>;
             s = l1_upd (nat idx1) (\<lambda>e. e\<lparr>last_access := lru_tick s\<rparr>) s;
             s = (if op = OP_WRITE then l1_upd (nat idx1) (\<lambda>e. e\<lparr>dirty := True\<rparr>) s else s);
             ppn = physical_page_number (tlb_l1 s ! nat idx1)
         in (compose_pa c ppn off, s))
      else
        (let s = s\<lparr>tlb_l1_misses := tlb_l1_misses s + 1\<rparr>;
             s = increment_time (TLB_L2_LATENCY_NS c) s;
             idx2 = l2_find s vpn
         in
         if 0 \<le> idx2 then
           (let s = s\<lparr>tlb_l2_hits := tlb_l2_hits s + 1\<rparr>;
                s = s\<lparr>lru_tick2 := lru_tick2 s + 1\<rparr>;
                s = l2_upd (nat idx2) (\<lambda>e. e\<lparr>last_access := lru_tick2 s\<rparr>) s;
                s = (if op = OP_WRITE then l2_upd (nat idx2) (\<lambda>e. e\<lparr>dirty := True\<rparr>) s else s);
                ppn = physical_page_number (tlb_l2 s ! nat idx2);
                s = l1_insert c vpn ppn (op = OP_WRITE) s
            in (compose_pa c ppn off, s))
         else
           (let s = s\<lparr>tlb_l2_misses := tlb_l2_misses s + 1\<rparr>;
                (pa, s) = page_table_translate c virtual_address op s;
                ppn = pa_to_ppn c pa;
                s = l1_insert c vpn ppn (op = OP_WRITE) s;
                s = l2_insert c vpn ppn (op = OP_WRITE) s
            in (pa, s))))"

section \<open>Operation sequences\<close>

datatype operation = Initialize | Translate va_t op_t | Invalidate va_t

fun step :: "config \<Rightarrow> tlb_state \<Rightarrow> operation \<Rightarrow> tlb_state" where
  "step c s Initialize = tlb_init c s"
| "step c s (Translate va op) = snd (tlb_translate c va op s)"
| "step c s (Invalidate vpn) = tlb_invalidate c vpn s"

definition run :: "config \<Rightarrow> operation list \<Rightarrow> tlb_state \<Rightarrow> tlb_state" where
  "run c ops s = foldl (step c) s ops"

text \<open>The globals at program start: everything zero, no call made yet.\<close>

definition start :: "config \<Rightarrow> tlb_state" where
  "start c = \<lparr>tlb_l1 = replicate (TLB_L1_SIZE c) zero_entry,
     tlb_l2 = replicate (TLB_L2_SIZE c) zero_entry,
     tlb_l1_hits = 0, tlb_l1_misses = 0, tlb_l1_invalidations = 0,
     tlb_l2_hits = 0, tlb_l2_misses = 0, tlb_l2_invalidations = 0,
     lru_tick = 0, lru_tick2 = 0, trace = []\<rparr>"

section \<open>Notions used in the statements and proofs\<close>

subsection \<open>Notions of the statements\<close>

text \<open>A level holds a VPN when one of its valid entries has it.\<close>

definition holds :: "tlb_entry_t list \<Rightarrow> va_t \<Rightarrow> bool" where
  "holds es vpn \<longleftrightarrow> (\<exists>e\<in>set es. valid e \<and> virtual_page_number e = vpn)"

text \<open>
  At most one valid entry per VPN: the VPNs of the valid entries of a level are pairwise
  distinct.
\<close>

definition unique_vpns :: "tlb_entry_t list \<Rightarrow> bool" where
  "unique_vpns es \<longleftrightarrow> distinct (map virtual_page_number (filter valid es))"

text \<open>
  What \<^verbatim>\<open>l1_evict_entry\<close>, \<^verbatim>\<open>l2_evict_entry\<close> and \<^verbatim>\<open>tlb_invalidate\<close> leave in an
  invalid entry (\<open>reset_invalid\<close>), and the stronger reading of the data-model sentence,
  under which the VPN and the PPN of an invalid entry are zero as well
  (\<open>canonical_invalid\<close>).
\<close>

definition reset_invalid :: "tlb_entry_t list \<Rightarrow> bool" where
  "reset_invalid es \<longleftrightarrow> (\<forall>e\<in>set es. \<not> valid e \<longrightarrow> \<not> dirty e \<and> last_access e = 0)"

definition canonical_invalid :: "tlb_entry_t list \<Rightarrow> bool" where
  "canonical_invalid es \<longleftrightarrow>
     (\<forall>e\<in>set es. \<not> valid e \<longrightarrow>
        \<not> dirty e \<and> last_access e = 0 \<and> virtual_page_number e = 0 \<and> physical_page_number e = 0)"

text \<open>
  The victim policy in the words of the specification: \<open>first_free es k\<close> says that \<open>k\<close>
  is the lowest index of an invalid slot, \<open>least_recent es k\<close> that slot \<open>k\<close> has the
  smallest \<open>last_access\<close> and every slot before it a strictly greater one (ties go to the
  lowest index).
\<close>

definition first_free :: "tlb_entry_t list \<Rightarrow> nat \<Rightarrow> bool" where
  "first_free es k \<longleftrightarrow>
     k < length es \<and> \<not> valid (es ! k) \<and> (\<forall>j\<in>{0..<k}. valid (es ! j))"

definition least_recent :: "tlb_entry_t list \<Rightarrow> nat \<Rightarrow> bool" where
  "least_recent es k \<longleftrightarrow> k < length es
     \<and> (\<forall>j\<in>{0..<length es}. last_access (es ! k) \<le> last_access (es ! j))
     \<and> (\<forall>j\<in>{0..<k}. last_access (es ! k) < last_access (es ! j))"

text \<open>One counter before and after a step: unchanged, or one added (modulo \<open>2 ^ 64\<close>).\<close>

definition bumped :: "64 word \<Rightarrow> 64 word \<Rightarrow> bool" where
  "bumped a b \<longleftrightarrow> b = a \<or> b = a + 1"

text \<open>
  A sequence of insertions into one level, each with its VPN, PPN and dirty flag, as the
  LRU property of the specification has it.
\<close>

definition l1_insert_all :: "config \<Rightarrow> (va_t \<times> 64 word \<times> bool) list \<Rightarrow> tlb_state \<Rightarrow> tlb_state" where
  "l1_insert_all c xs s = foldl (\<lambda>s (vpn, ppn, d). l1_insert c vpn ppn d s) s xs"

definition l2_insert_all :: "config \<Rightarrow> (va_t \<times> 64 word \<times> bool) list \<Rightarrow> tlb_state \<Rightarrow> tlb_state" where
  "l2_insert_all c xs s = foldl (\<lambda>s (vpn, ppn, d). l2_insert c vpn ppn d s) s xs"

text \<open>
  The configuration of the scenario of the specification: both levels of capacity 2 and
  12 page-size bits. The latencies are 1 and 10, and the resolver maps the page with
  number \<open>n\<close> to the frame \<open>n + 16\<close>.
\<close>

definition lab_config :: config where
  "lab_config = \<lparr>PAGE_SIZE_BITS = 12, PAGE_OFFSET_MASK = 4095,
     TLB_L1_SIZE = 2, TLB_L2_SIZE = 2, TLB_L1_LATENCY_NS = 1, TLB_L2_LATENCY_NS = 10,
     resolver = (\<lambda>h va op. va + 65536)\<rparr>"

subsection \<open>Notions of the proofs\<close>

text \<open>Slot \<open>j\<close> is valid and has the VPN: the test of the lookup loop.\<close>

definition matches :: "tlb_entry_t list \<Rightarrow> va_t \<Rightarrow> nat \<Rightarrow> bool" where
  "matches es vpn j \<longleftrightarrow> valid (es ! j) \<and> virtual_page_number (es ! j) = vpn"

text \<open>The uniqueness of VPNs among valid entries, by slot indices.\<close>

definition no_clash :: "tlb_entry_t list \<Rightarrow> bool" where
  "no_clash es \<longleftrightarrow> (\<forall>i<length es. \<forall>j<length es.
      valid (es ! i) \<and> valid (es ! j) \<and> virtual_page_number (es ! i) = virtual_page_number (es ! j)
      \<longrightarrow> i = j)"

text \<open>
  What \<^verbatim>\<open>l1_insert\<close> and \<^verbatim>\<open>l2_insert\<close> do to the array of their level, whose logical
  clock is \<open>t\<close> before the call (\<open>ins_entries\<close>); the valid dirty entry that the call
  evicts, if any (\<open>evicted\<close>); the call to the sink that \<^verbatim>\<open>l2_evict_entry\<close> makes for it
  (\<open>write_backs\<close>); and the insertion into L2 that \<^verbatim>\<open>l1_evict_entry\<close> makes for it
  (\<open>spill\<close>). The lemmas \<open>l2_insert_eq\<close> and \<open>l1_insert_eq\<close> below relate them to the
  functions of the source.
\<close>

definition ins_entries ::
  "tlb_entry_t list \<Rightarrow> 64 word \<Rightarrow> va_t \<Rightarrow> 64 word \<Rightarrow> bool \<Rightarrow> tlb_entry_t list" where
  "ins_entries es t vpn ppn d =
     (let idx = find_loop es vpn 0 in
      if 0 \<le> idx then
        es[nat idx := (es ! nat idx)\<lparr>physical_page_number := ppn,
             dirty := (dirty (es ! nat idx) \<or> d), last_access := t + 1, valid := True\<rparr>]
      else
        es[nat (choose_victim es) := \<lparr>valid = True, dirty = d, last_access = t + 1,
             virtual_page_number = vpn, physical_page_number = ppn\<rparr>])"

definition evicted :: "tlb_entry_t list \<Rightarrow> va_t \<Rightarrow> tlb_entry_t option" where
  "evicted es vpn =
     (if 0 \<le> find_loop es vpn 0 then None
      else let e = es ! nat (choose_victim es) in if valid e \<and> dirty e then Some e else None)"

definition write_backs :: "config \<Rightarrow> tlb_entry_t option \<Rightarrow> event list" where
  "write_backs c v =
     (case v of None \<Rightarrow> [] | Some e \<Rightarrow> [WriteBackTlbEntry (compose_pa c (physical_page_number e) 0)])"

definition spill :: "config \<Rightarrow> tlb_entry_t option \<Rightarrow> tlb_state \<Rightarrow> tlb_state" where
  "spill c v s =
     (case v of None \<Rightarrow> s
      | Some e \<Rightarrow> l2_insert c (virtual_page_number e) (physical_page_number e) True s)"

text \<open>The invariant of the operations: array sizes, uniqueness, reset invalid entries.\<close>

definition tlb_inv :: "config \<Rightarrow> tlb_state \<Rightarrow> bool" where
  "tlb_inv c s \<longleftrightarrow> length (tlb_l1 s) = TLB_L1_SIZE c \<and> length (tlb_l2 s) = TLB_L2_SIZE c
     \<and> unique_vpns (tlb_l1 s) \<and> unique_vpns (tlb_l2 s)
     \<and> reset_invalid (tlb_l1 s) \<and> reset_invalid (tlb_l2 s)"

text \<open>
  The effect of a sequence of insertions on the array of the level alone, with the logical
  clock \<open>t\<close> of the level before the first insertion.
\<close>

fun ins_all :: "tlb_entry_t list \<Rightarrow> 64 word \<Rightarrow> (va_t \<times> 64 word \<times> bool) list \<Rightarrow> tlb_entry_t list" where
  "ins_all es t [] = es"
| "ins_all es t ((vpn, ppn, d) # xs) = ins_all (ins_entries es t vpn ppn d) (t + 1) xs"

text \<open>
  For the LRU order: an entry is \<open>stale\<close> at clock \<open>t\<close> when it is invalid or was last
  accessed at \<open>t\<close> or before; \<open>fresh t i x\<close> is the entry that the insertion number \<open>i\<close>
  (from 0) after clock \<open>t\<close> writes for a new VPN; \<open>filled es t xs es'\<close> describes the
  array \<open>es'\<close> after the insertions \<open>xs\<close> of new VPNs into \<open>es\<close>: each insertion replaced a
  stale entry.
\<close>

definition stale :: "64 word \<Rightarrow> tlb_entry_t \<Rightarrow> bool" where
  "stale t e \<longleftrightarrow> \<not> valid e \<or> last_access e \<le> t"

definition fresh :: "64 word \<Rightarrow> nat \<Rightarrow> va_t \<times> 64 word \<times> bool \<Rightarrow> tlb_entry_t" where
  "fresh t i x = \<lparr>valid = True, dirty = snd (snd x), last_access = t + of_nat i + 1,
     virtual_page_number = fst x, physical_page_number = fst (snd x)\<rparr>"

definition filled :: "tlb_entry_t list \<Rightarrow> 64 word \<Rightarrow> (va_t \<times> 64 word \<times> bool) list \<Rightarrow> tlb_entry_t list \<Rightarrow> bool" where
  "filled es t xs es' \<longleftrightarrow> length es' = length es \<and> unique_vpns es'
     \<and> (\<forall>e\<in>set es'. stale t e \<and> e \<in> set es \<or> (\<exists>i<length xs. e = fresh t i (xs ! i)))
     \<and> (\<forall>i<length xs. fresh t i (xs ! i) \<in> set es')
     \<and> length (filter (stale t) es') + length xs = length es"

section \<open>Address decomposition: round trip\<close>

lemma compose_split:
  fixes va :: "64 word"
  assumes "n \<le> 32"
  shows "push_bit n (drop_bit n va) OR ucast (ucast (va AND mask n) :: 32 word) = va"
proof (rule bit_word_eqI)
  fix k
  assume "k < LENGTH(64)"
  with assms show "bit (push_bit n (drop_bit n va) OR ucast (ucast (va AND mask n) :: 32 word)) k
     \<longleftrightarrow> bit va k"
    by (cases "k < n") (auto simp: bit_simps)
qed

text \<open>
  Claim C9. With at most 32 page-size bits (the offset is a \<^verbatim>\<open>uint32_t\<close>) and
  \<^verbatim>\<open>PAGE_OFFSET_MASK\<close> the mask of the low \<^verbatim>\<open>PAGE_SIZE_BITS\<close> bits, composing the page
  number and the offset of a virtual address gives the address back; the page number holds
  the bits of the address from \<^verbatim>\<open>PAGE_SIZE_BITS\<close> upwards and the offset the bits below.
\<close>

theorem compose_pa_decomposition:
  assumes "PAGE_SIZE_BITS c \<le> 32" and "PAGE_OFFSET_MASK c = mask (PAGE_SIZE_BITS c)"
  shows "compose_pa c (va_to_vpn c va) (va_offset c va) = va
    \<and> (\<forall>k. bit (va_to_vpn c va) k = bit va (PAGE_SIZE_BITS c + k))
    \<and> (\<forall>k. bit (va_offset c va) k = (k < PAGE_SIZE_BITS c \<and> bit va k))"
proof (intro conjI allI)
  show "compose_pa c (va_to_vpn c va) (va_offset c va) = va"
    using assms by (simp add: compose_pa_def va_to_vpn_def va_offset_def compose_split)
  show "bit (va_to_vpn c va) k = bit va (PAGE_SIZE_BITS c + k)" for k
    by (simp add: va_to_vpn_def bit_simps)
  show "bit (va_offset c va) k = (k < PAGE_SIZE_BITS c \<and> bit va k)" for k
    using assms by (auto simp add: va_offset_def bit_simps)
qed

text \<open>With 12 page-size bits, the address \<open>0x12345\<close> is put together again.\<close>

theorem compose_pa_decomposition_witness:
  "PAGE_SIZE_BITS lab_config \<le> 32
   \<and> PAGE_OFFSET_MASK lab_config = mask (PAGE_SIZE_BITS lab_config)
   \<and> compose_pa lab_config (va_to_vpn lab_config 74565) (va_offset lab_config 74565) = 74565"
proof -
  have a: "PAGE_SIZE_BITS lab_config \<le> 32"
    by (simp add: lab_config_def)
  have b: "PAGE_OFFSET_MASK lab_config = mask (PAGE_SIZE_BITS lab_config)"
    by (simp add: lab_config_def mask_eq_exp_minus_1)
  from compose_pa_decomposition [OF a b, of 74565] a b show ?thesis
    by blast
qed

section \<open>The loops of lookup and victim selection\<close>

lemma find_loop_cases:
  "(find_loop es vpn i = - 1 \<and> (\<forall>j. i \<le> j \<and> j < length es \<longrightarrow> \<not> matches es vpn j))
   \<or> (\<exists>k. find_loop es vpn i = int k \<and> i \<le> k \<and> k < length es \<and> matches es vpn k
          \<and> (\<forall>j. i \<le> j \<and> j < k \<longrightarrow> \<not> matches es vpn j))"
proof (induction es vpn i rule: find_loop.induct)
  case (1 es vpn i)
  show ?case
  proof (cases "i < length es")
    case False
    then show ?thesis by (auto simp add: find_loop.simps [of es vpn i])
  next
    case inb: True
    show ?thesis
    proof (cases "matches es vpn i")
      case True
      with inb have "find_loop es vpn i = int i"
        by (simp add: find_loop.simps [of es vpn i] matches_def)
      with True inb show ?thesis by auto
    next
      case False
      with inb have eq: "find_loop es vpn i = find_loop es vpn (Suc i)"
        by (auto simp add: find_loop.simps [of es vpn i] matches_def)
      from False inb have nm: "\<not> (valid (es ! i) \<and> virtual_page_number (es ! i) = vpn)"
        by (simp add: matches_def)
      have ext: "\<And>j. i \<le> j \<Longrightarrow> \<not> matches es vpn j \<or> Suc i \<le> j"
        using False by (metis le_antisym not_less_eq_eq)
      from "1.IH" [OF inb nm] show ?thesis
        unfolding eq using ext by (metis Suc_leD)
    qed
  qed
qed

lemma find_loop_neg: "find_loop es vpn 0 < 0 \<longleftrightarrow> (\<forall>j<length es. \<not> matches es vpn j)"
  using find_loop_cases [of es vpn 0] by auto

lemma find_loop_pos:
  assumes "0 \<le> find_loop es vpn 0"
  shows "nat (find_loop es vpn 0) < length es" "matches es vpn (nat (find_loop es vpn 0))"
    "\<And>j. j < nat (find_loop es vpn 0) \<Longrightarrow> \<not> matches es vpn j"
  using find_loop_cases [of es vpn 0] assms by auto

lemma find_loop_first:
  assumes "k < length es" "matches es vpn k" "\<And>j. j < k \<Longrightarrow> \<not> matches es vpn j"
  shows "find_loop es vpn 0 = int k"
proof -
  from find_loop_cases [of es vpn 0] assms(1,2)
  obtain k' where k': "find_loop es vpn 0 = int k'" "k' < length es" "matches es vpn k'"
    "\<forall>j. 0 \<le> j \<and> j < k' \<longrightarrow> \<not> matches es vpn j"
    by auto
  have "k' = k"
    using assms k' by (meson linorder_neqE_nat le0)
  with k' show ?thesis by simp
qed

lemma free_loop_cases:
  "(free_loop es i = - 1 \<and> (\<forall>j. i \<le> j \<and> j < length es \<longrightarrow> valid (es ! j)))
   \<or> (\<exists>k. free_loop es i = int k \<and> i \<le> k \<and> k < length es \<and> \<not> valid (es ! k)
          \<and> (\<forall>j. i \<le> j \<and> j < k \<longrightarrow> valid (es ! j)))"
proof (induction es i rule: free_loop.induct)
  case (1 es i)
  show ?case
  proof (cases "i < length es")
    case False
    then show ?thesis by (auto simp add: free_loop.simps [of es i])
  next
    case inb: True
    show ?thesis
    proof (cases "valid (es ! i)")
      case False
      with inb have "free_loop es i = int i"
        by (simp add: free_loop.simps [of es i])
      with False inb show ?thesis by auto
    next
      case True
      with inb have eq: "free_loop es i = free_loop es (Suc i)"
        by (auto simp add: free_loop.simps [of es i])
      have nn: "\<not> \<not> valid (es ! i)" using True by simp
      have ext: "\<And>j. i \<le> j \<Longrightarrow> valid (es ! j) \<or> Suc i \<le> j"
        using True by (metis le_antisym not_less_eq_eq)
      from "1.IH" [OF inb nn] show ?thesis
        unfolding eq using ext by (metis Suc_leD)
    qed
  qed
qed

lemma lru_loop_inv:
  assumes "v < i" "i \<le> length es" "best = last_access (es ! v)"
    "\<forall>j<i. best \<le> last_access (es ! j)" "\<forall>j<v. best < last_access (es ! j)"
  shows "\<exists>r. lru_loop es i (int v) best = int r \<and> r < length es
     \<and> (\<forall>j<length es. last_access (es ! r) \<le> last_access (es ! j))
     \<and> (\<forall>j<r. last_access (es ! r) < last_access (es ! j))"
  using assms
proof (induction es i "int v" best arbitrary: v rule: lru_loop.induct)
  case (1 es i best)
  show ?case
  proof (cases "i < length es")
    case False
    have eq: "lru_loop es i (int v) best = int v"
      using False by (simp add: lru_loop.simps [of es i])
    from False 1(4) have "i = length es" by simp
    with 1 show ?thesis unfolding eq by auto
  next
    case inb: True
    show ?thesis
    proof (cases "last_access (es ! i) < best")
      case True
      have eq: "lru_loop es i (int v) best = lru_loop es (Suc i) (int i) (last_access (es ! i))"
        using inb True by (simp add: lru_loop.simps [of es i])
      have a: "\<forall>j<Suc i. last_access (es ! i) \<le> last_access (es ! j)"
        using 1(6) True by (auto simp: less_Suc_eq)
      have b: "\<forall>j<i. last_access (es ! i) < last_access (es ! j)"
        using 1(6) True by auto
      from "1.hyps"(1) [OF inb True refl _ _ refl a b] inb show ?thesis
        unfolding eq by simp
    next
      case False
      have eq: "lru_loop es i (int v) best = lru_loop es (Suc i) (int v) best"
        using inb False by (simp add: lru_loop.simps [of es i])
      have a: "\<forall>j<Suc i. best \<le> last_access (es ! j)"
        using 1(6) False by (auto simp: less_Suc_eq)
      from "1.hyps"(2) [OF inb False refl _ _ 1(5) a 1(7)] inb 1(3) show ?thesis
        unfolding eq by simp
    qed
  qed
qed

lemma lru_loop_nonneg: "0 \<le> v \<Longrightarrow> 0 \<le> lru_loop es i v best"
proof (induction es i v best rule: lru_loop.induct)
  case (1 es i victim best)
  then show ?case
    by (subst lru_loop.simps) auto
qed

lemma choose_victim_nonneg: "0 \<le> choose_victim es"
  by (simp add: choose_victim_def Let_def lru_loop_nonneg)

lemma first_free_iff:
  "first_free es k \<longleftrightarrow> k < length es \<and> \<not> valid (es ! k) \<and> (\<forall>j<k. valid (es ! j))"
  by (auto simp add: first_free_def)

lemma least_recent_iff:
  "least_recent es k \<longleftrightarrow> k < length es
     \<and> (\<forall>j<length es. last_access (es ! k) \<le> last_access (es ! j))
     \<and> (\<forall>j<k. last_access (es ! k) < last_access (es ! j))"
  by (auto simp add: least_recent_def)

lemma choose_victim_free:
  assumes "\<exists>j<length es. \<not> valid (es ! j)"
  shows "\<exists>k. choose_victim es = int k \<and> first_free es k"
  using free_loop_cases [of es 0] assms
  by (auto simp add: choose_victim_def first_free_iff)

lemma choose_victim_lru:
  assumes "es \<noteq> []" "\<forall>j<length es. valid (es ! j)"
  shows "\<exists>k. choose_victim es = int k \<and> least_recent es k"
proof -
  from assms have len: "0 < length es" by simp
  have f: "free_loop es 0 = - 1"
    using free_loop_cases [of es 0] assms(2) by auto
  have "\<exists>r. lru_loop es 1 (int 0) (last_access (es ! 0)) = int r \<and> r < length es
     \<and> (\<forall>j<length es. last_access (es ! r) \<le> last_access (es ! j))
     \<and> (\<forall>j<r. last_access (es ! r) < last_access (es ! j))"
    by (rule lru_loop_inv) (use len in \<open>auto simp: Suc_le_eq\<close>)
  with f show ?thesis
    by (simp add: choose_victim_def least_recent_iff)
qed

lemma choose_victim_range:
  assumes "es \<noteq> []"
  shows "nat (choose_victim es) < length es"
proof (cases "\<exists>j<length es. \<not> valid (es ! j)")
  case True
  from choose_victim_free [OF True] show ?thesis by (auto simp: first_free_iff)
next
  case False
  then have "\<forall>j<length es. valid (es ! j)" by simp
  from choose_victim_lru [OF assms this] show ?thesis by (auto simp: least_recent_iff)
qed

section \<open>Insertion as an update of the array\<close>

lemma entry_all_fields:
  "(e :: tlb_entry_t)\<lparr>valid := a, dirty := b, last_access := t, virtual_page_number := v,
      physical_page_number := p\<rparr>
   = \<lparr>valid = a, dirty = b, last_access = t, virtual_page_number = v, physical_page_number = p\<rparr>"
  by simp

lemma l2_insert_eq:
  "l2_insert c vpn ppn d s = s\<lparr>tlb_l2 := ins_entries (tlb_l2 s) (lru_tick2 s) vpn ppn d,
     lru_tick2 := lru_tick2 s + 1,
     trace := trace s @ write_backs c (evicted (tlb_l2 s) vpn)\<rparr>"
proof (cases "0 \<le> find_loop (tlb_l2 s) vpn 0")
  case True
  then show ?thesis
    by (simp add: l2_insert_def l2_find_def Let_def l2_upd_def ins_entries_def evicted_def
        write_backs_def)
next
  case False
  have v: "\<not> choose_victim (tlb_l2 s) < 0"
    using choose_victim_nonneg [of "tlb_l2 s"] by simp
  show ?thesis
  proof (cases "nat (choose_victim (tlb_l2 s)) < length (tlb_l2 s)")
    case True
    with False v show ?thesis
      by (simp add: l2_insert_def l2_find_def Let_def l2_upd_def ins_entries_def evicted_def
          write_backs_def l2_choose_victim_def l2_evict_entry_def write_back_tlb_entry_def
          reset_entry_def entry_all_fields)
  next
    case oob: False
    with False v show ?thesis
      by (simp add: l2_insert_def l2_find_def Let_def l2_upd_def ins_entries_def evicted_def
          write_backs_def l2_choose_victim_def l2_evict_entry_def write_back_tlb_entry_def
          reset_entry_def entry_all_fields)
  qed
qed

lemma l2_insert_fields [simp]:
  "tlb_l2 (l2_insert c vpn ppn d s) = ins_entries (tlb_l2 s) (lru_tick2 s) vpn ppn d"
  "lru_tick2 (l2_insert c vpn ppn d s) = lru_tick2 s + 1"
  "trace (l2_insert c vpn ppn d s) = trace s @ write_backs c (evicted (tlb_l2 s) vpn)"
  "tlb_l1 (l2_insert c vpn ppn d s) = tlb_l1 s"
  "lru_tick (l2_insert c vpn ppn d s) = lru_tick s"
  "tlb_l1_hits (l2_insert c vpn ppn d s) = tlb_l1_hits s"
  "tlb_l1_misses (l2_insert c vpn ppn d s) = tlb_l1_misses s"
  "tlb_l1_invalidations (l2_insert c vpn ppn d s) = tlb_l1_invalidations s"
  "tlb_l2_hits (l2_insert c vpn ppn d s) = tlb_l2_hits s"
  "tlb_l2_misses (l2_insert c vpn ppn d s) = tlb_l2_misses s"
  "tlb_l2_invalidations (l2_insert c vpn ppn d s) = tlb_l2_invalidations s"
  by (simp_all add: l2_insert_eq)

lemma l1_insert_eq:
  "l1_insert c vpn ppn d s = (spill c (evicted (tlb_l1 s) vpn) s)
     \<lparr>tlb_l1 := ins_entries (tlb_l1 s) (lru_tick s) vpn ppn d, lru_tick := lru_tick s + 1\<rparr>"
proof (cases "0 \<le> find_loop (tlb_l1 s) vpn 0")
  case True
  then show ?thesis
    by (simp add: l1_insert_def l1_find_def Let_def l1_upd_def ins_entries_def evicted_def
        spill_def)
next
  case False
  have v: "\<not> choose_victim (tlb_l1 s) < 0"
    using choose_victim_nonneg [of "tlb_l1 s"] by simp
  show ?thesis
  proof (cases "nat (choose_victim (tlb_l1 s)) < length (tlb_l1 s)")
    case True
    with False v show ?thesis
      by (simp add: l1_insert_def l1_find_def Let_def l1_upd_def ins_entries_def evicted_def
          spill_def l1_choose_victim_def l1_evict_entry_def reset_entry_def entry_all_fields)
  next
    case oob: False
    with False v show ?thesis
      by (simp add: l1_insert_def l1_find_def Let_def l1_upd_def ins_entries_def evicted_def
          spill_def l1_choose_victim_def l1_evict_entry_def reset_entry_def entry_all_fields)
  qed
qed

lemma spill_fields [simp]:
  "tlb_l1 (spill c v s) = tlb_l1 s"
  "lru_tick (spill c v s) = lru_tick s"
  "tlb_l1_hits (spill c v s) = tlb_l1_hits s"
  "tlb_l1_misses (spill c v s) = tlb_l1_misses s"
  "tlb_l1_invalidations (spill c v s) = tlb_l1_invalidations s"
  "tlb_l2_hits (spill c v s) = tlb_l2_hits s"
  "tlb_l2_misses (spill c v s) = tlb_l2_misses s"
  "tlb_l2_invalidations (spill c v s) = tlb_l2_invalidations s"
  by (simp_all add: spill_def split: option.split)

lemma l1_insert_fields [simp]:
  "tlb_l1 (l1_insert c vpn ppn d s) = ins_entries (tlb_l1 s) (lru_tick s) vpn ppn d"
  "lru_tick (l1_insert c vpn ppn d s) = lru_tick s + 1"
  "tlb_l2 (l1_insert c vpn ppn d s) = tlb_l2 (spill c (evicted (tlb_l1 s) vpn) s)"
  "lru_tick2 (l1_insert c vpn ppn d s) = lru_tick2 (spill c (evicted (tlb_l1 s) vpn) s)"
  "trace (l1_insert c vpn ppn d s) = trace (spill c (evicted (tlb_l1 s) vpn) s)"
  "tlb_l1_hits (l1_insert c vpn ppn d s) = tlb_l1_hits s"
  "tlb_l1_misses (l1_insert c vpn ppn d s) = tlb_l1_misses s"
  "tlb_l1_invalidations (l1_insert c vpn ppn d s) = tlb_l1_invalidations s"
  "tlb_l2_hits (l1_insert c vpn ppn d s) = tlb_l2_hits s"
  "tlb_l2_misses (l1_insert c vpn ppn d s) = tlb_l2_misses s"
  "tlb_l2_invalidations (l1_insert c vpn ppn d s) = tlb_l2_invalidations s"
  by (simp_all add: l1_insert_eq)

section \<open>The loops of invalidation\<close>

lemma invalidate_l1_loop_eq:
  "invalidate_l1_loop c vpn i s =
     (let idx = find_loop (tlb_l1 s) vpn i in
      if idx < 0 then s
      else (l1_upd (nat idx) reset_entry
              (if dirty (tlb_l1 s ! nat idx)
               then l2_insert c vpn (physical_page_number (tlb_l1 s ! nat idx)) True s
               else s))
           \<lparr>tlb_l1_invalidations := tlb_l1_invalidations s + 1\<rparr>)"
proof (induction c vpn i s rule: invalidate_l1_loop.induct)
  case (1 c vpn i s)
  show ?case
  proof (cases "i < length (tlb_l1 s)")
    case False
    then show ?thesis
      by (simp add: invalidate_l1_loop.simps [of c vpn i s] find_loop.simps [of "tlb_l1 s" vpn i])
  next
    case inb: True
    show ?thesis
    proof (cases "valid (tlb_l1 s ! i) \<and> virtual_page_number (tlb_l1 s ! i) = vpn")
      case True
      with inb show ?thesis
        by (simp add: invalidate_l1_loop.simps [of c vpn i s]
            find_loop.simps [of "tlb_l1 s" vpn i] Let_def l1_upd_def)
    next
      case False
      from inb False have "invalidate_l1_loop c vpn i s = invalidate_l1_loop c vpn (Suc i) s"
        by (auto simp add: invalidate_l1_loop.simps [of c vpn i s])
      moreover from inb False have "find_loop (tlb_l1 s) vpn i = find_loop (tlb_l1 s) vpn (Suc i)"
        by (auto simp add: find_loop.simps [of "tlb_l1 s" vpn i])
      ultimately show ?thesis
        using "1.IH" [OF inb False] by simp
    qed
  qed
qed

lemma invalidate_l2_loop_eq:
  "invalidate_l2_loop c vpn i s =
     (let idx = find_loop (tlb_l2 s) vpn i in
      if idx < 0 then s
      else (l2_upd (nat idx) reset_entry
              (if dirty (tlb_l2 s ! nat idx)
               then write_back_tlb_entry
                      (compose_pa c (physical_page_number (tlb_l2 s ! nat idx)) 0) s
               else s))
           \<lparr>tlb_l2_invalidations := tlb_l2_invalidations s + 1\<rparr>)"
proof (induction c vpn i s rule: invalidate_l2_loop.induct)
  case (1 c vpn i s)
  show ?case
  proof (cases "i < length (tlb_l2 s)")
    case False
    then show ?thesis
      by (simp add: invalidate_l2_loop.simps [of c vpn i s] find_loop.simps [of "tlb_l2 s" vpn i])
  next
    case inb: True
    show ?thesis
    proof (cases "valid (tlb_l2 s ! i) \<and> virtual_page_number (tlb_l2 s ! i) = vpn")
      case True
      with inb show ?thesis
        by (simp add: invalidate_l2_loop.simps [of c vpn i s]
            find_loop.simps [of "tlb_l2 s" vpn i] Let_def l2_upd_def write_back_tlb_entry_def)
    next
      case False
      from inb False have "invalidate_l2_loop c vpn i s = invalidate_l2_loop c vpn (Suc i) s"
        by (auto simp add: invalidate_l2_loop.simps [of c vpn i s])
      moreover from inb False have "find_loop (tlb_l2 s) vpn i = find_loop (tlb_l2 s) vpn (Suc i)"
        by (auto simp add: find_loop.simps [of "tlb_l2 s" vpn i])
      ultimately show ?thesis
        using "1.IH" [OF inb False] by simp
    qed
  qed
qed

section \<open>The three cases of translation\<close>

lemma holds_iff_matches: "holds es vpn \<longleftrightarrow> (\<exists>j<length es. matches es vpn j)"
  unfolding holds_def matches_def by (metis in_set_conv_nth)

lemma holds_iff_find: "holds es vpn \<longleftrightarrow> 0 \<le> find_loop es vpn 0"
  using find_loop_neg [of es vpn] by (auto simp add: holds_iff_matches)

lemma translate_l1_hit:
  assumes "0 \<le> l1_find s (va_to_vpn c va)"
  shows "tlb_translate c va op s =
     (compose_pa c (physical_page_number (tlb_l1 s ! nat (l1_find s (va_to_vpn c va))))
        (va_offset c va),
      s\<lparr>tlb_l1 := (tlb_l1 s)[nat (l1_find s (va_to_vpn c va)) :=
            (tlb_l1 s ! nat (l1_find s (va_to_vpn c va)))
              \<lparr>last_access := lru_tick s + 1,
               dirty := (dirty (tlb_l1 s ! nat (l1_find s (va_to_vpn c va))) \<or> op = OP_WRITE)\<rparr>],
        tlb_l1_hits := tlb_l1_hits s + 1,
        lru_tick := lru_tick s + 1,
        trace := trace s @ [IncrementTime (TLB_L1_LATENCY_NS c)]\<rparr>)"
proof -
  from assms have "nat (l1_find s (va_to_vpn c va)) < length (tlb_l1 s)"
    unfolding l1_find_def by (rule find_loop_pos(1))
  with assms show ?thesis
    by (cases op) (simp_all add: tlb_translate_def Let_def increment_time_def l1_find_def l1_upd_def)
qed

lemma translate_l2_hit:
  assumes "\<not> 0 \<le> l1_find s (va_to_vpn c va)" and "0 \<le> l2_find s (va_to_vpn c va)"
  shows "tlb_translate c va op s =
     (compose_pa c (physical_page_number (tlb_l2 s ! nat (l2_find s (va_to_vpn c va))))
        (va_offset c va),
      l1_insert c (va_to_vpn c va)
        (physical_page_number (tlb_l2 s ! nat (l2_find s (va_to_vpn c va)))) (op = OP_WRITE)
        (s\<lparr>tlb_l1_misses := tlb_l1_misses s + 1,
          trace := trace s @ [IncrementTime (TLB_L1_LATENCY_NS c),
                              IncrementTime (TLB_L2_LATENCY_NS c)],
          tlb_l2_hits := tlb_l2_hits s + 1,
          lru_tick2 := lru_tick2 s + 1,
          tlb_l2 := (tlb_l2 s)[nat (l2_find s (va_to_vpn c va)) :=
            (tlb_l2 s ! nat (l2_find s (va_to_vpn c va)))
              \<lparr>last_access := lru_tick2 s + 1,
               dirty := (dirty (tlb_l2 s ! nat (l2_find s (va_to_vpn c va))) \<or> op = OP_WRITE)\<rparr>]\<rparr>))"
proof -
  from assms(2) have "nat (l2_find s (va_to_vpn c va)) < length (tlb_l2 s)"
    unfolding l2_find_def by (rule find_loop_pos(1))
  with assms show ?thesis
    by (cases op) (simp_all add: tlb_translate_def Let_def increment_time_def l1_find_def
        l2_find_def l2_upd_def)
qed

lemma translate_miss:
  assumes "\<not> 0 \<le> l1_find s (va_to_vpn c va)" and "\<not> 0 \<le> l2_find s (va_to_vpn c va)"
  shows "tlb_translate c va op s =
     (resolver c (trace s @ [IncrementTime (TLB_L1_LATENCY_NS c),
                             IncrementTime (TLB_L2_LATENCY_NS c)]) va op,
      l2_insert c (va_to_vpn c va)
        (pa_to_ppn c (resolver c (trace s @ [IncrementTime (TLB_L1_LATENCY_NS c),
                             IncrementTime (TLB_L2_LATENCY_NS c)]) va op)) (op = OP_WRITE)
       (l1_insert c (va_to_vpn c va)
        (pa_to_ppn c (resolver c (trace s @ [IncrementTime (TLB_L1_LATENCY_NS c),
                             IncrementTime (TLB_L2_LATENCY_NS c)]) va op)) (op = OP_WRITE)
        (s\<lparr>tlb_l1_misses := tlb_l1_misses s + 1,
          tlb_l2_misses := tlb_l2_misses s + 1,
          trace := trace s @ [IncrementTime (TLB_L1_LATENCY_NS c),
                              IncrementTime (TLB_L2_LATENCY_NS c),
                              PageTableTranslate va op]\<rparr>)))"
  using assms
  by (simp add: tlb_translate_def Let_def increment_time_def l1_find_def
        l2_find_def page_table_translate_def)

section \<open>The invariant of the operations\<close>

lemma no_clash_Cons:
  "no_clash (e # es) \<longleftrightarrow>
     no_clash es \<and> (valid e \<longrightarrow> (\<forall>x\<in>set es. valid x \<longrightarrow> virtual_page_number x \<noteq> virtual_page_number e))"
  (is "?L \<longleftrightarrow> ?R")
proof
  assume l: ?L
  have "no_clash es"
    unfolding no_clash_def
  proof (intro allI impI)
    fix i j
    assume "i < length es" "j < length es"
      "valid (es ! i) \<and> valid (es ! j) \<and> virtual_page_number (es ! i) = virtual_page_number (es ! j)"
    with l [unfolded no_clash_def, rule_format, of "Suc i" "Suc j"] show "i = j" by simp
  qed
  moreover have "virtual_page_number x \<noteq> virtual_page_number e"
    if "valid e" "x \<in> set es" "valid x" for x
  proof -
    from that(2) obtain j where j: "j < length es" "es ! j = x"
      by (auto simp: in_set_conv_nth)
    from l [unfolded no_clash_def, rule_format, of 0 "Suc j"] j that show ?thesis
      by auto
  qed
  ultimately show ?R by blast
next
  assume r: ?R
  show ?L
    unfolding no_clash_def
  proof (intro allI impI)
    fix i j
    assume a: "i < length (e # es)" "j < length (e # es)"
      "valid ((e # es) ! i) \<and> valid ((e # es) ! j)
       \<and> virtual_page_number ((e # es) ! i) = virtual_page_number ((e # es) ! j)"
    show "i = j"
    proof (cases i)
      case i0: 0
      show ?thesis
      proof (cases j)
        case 0
        with i0 show ?thesis by simp
      next
        case (Suc j')
        with a have "es ! j' \<in> set es" by simp
        with a i0 Suc r have False by auto
        then show ?thesis ..
      qed
    next
      case si: (Suc i')
      show ?thesis
      proof (cases j)
        case 0
        from a si have "es ! i' \<in> set es" by simp
        with a si 0 r have False by auto
        then show ?thesis ..
      next
        case (Suc j')
        with a si r [THEN conjunct1, unfolded no_clash_def, rule_format, of i' j']
        show ?thesis by simp
      qed
    qed
  qed
qed

lemma unique_vpns_iff: "unique_vpns es \<longleftrightarrow> no_clash es"
proof (induction es)
  case Nil
  show ?case by (simp add: unique_vpns_def no_clash_def)
next
  case (Cons e es)
  then show ?case
    by (simp add: no_clash_Cons unique_vpns_def image_iff) metis
qed

lemma no_clash_update_same:
  assumes "no_clash es" and "k < length es \<Longrightarrow> valid (es ! k) \<and> virtual_page_number x = virtual_page_number (es ! k)"
  shows "no_clash (es[k := x])"
  unfolding no_clash_def
proof (intro allI impI)
  fix i j
  assume a: "i < length (es[k := x])" "j < length (es[k := x])"
    "valid (es[k := x] ! i) \<and> valid (es[k := x] ! j)
      \<and> virtual_page_number (es[k := x] ! i) = virtual_page_number (es[k := x] ! j)"
  then have "valid (es ! i) \<and> valid (es ! j)
      \<and> virtual_page_number (es ! i) = virtual_page_number (es ! j)"
    using assms(2) by (cases "i = k"; cases "j = k") auto
  with a assms(1) show "i = j"
    by (simp add: no_clash_def)
qed

lemma no_clash_update_invalid:
  assumes "no_clash es" and "\<not> valid x"
  shows "no_clash (es[k := x])"
  unfolding no_clash_def
proof (intro allI impI)
  fix i j
  assume a: "i < length (es[k := x])" "j < length (es[k := x])"
    "valid (es[k := x] ! i) \<and> valid (es[k := x] ! j)
      \<and> virtual_page_number (es[k := x] ! i) = virtual_page_number (es[k := x] ! j)"
  then have "valid (es ! i) \<and> valid (es ! j)
      \<and> virtual_page_number (es ! i) = virtual_page_number (es ! j)"
    using assms(2) by (cases "i = k"; cases "j = k") auto
  with a assms(1) show "i = j"
    by (simp add: no_clash_def)
qed

lemma no_clash_update_fresh:
  assumes "no_clash es" and "\<forall>j<length es. \<not> matches es (virtual_page_number x) j"
  shows "no_clash (es[k := x])"
  unfolding no_clash_def
proof (intro allI impI)
  fix i j
  assume a: "i < length (es[k := x])" "j < length (es[k := x])"
    "valid (es[k := x] ! i) \<and> valid (es[k := x] ! j)
      \<and> virtual_page_number (es[k := x] ! i) = virtual_page_number (es[k := x] ! j)"
  show "i = j"
  proof (cases "i = k \<or> j = k")
    case True
    with a assms(2) show ?thesis
      by (cases "i = k"; cases "j = k") (auto simp: matches_def)
  next
    case False
    with a assms(1) show ?thesis
      by (simp add: no_clash_def)
  qed
qed

lemma unique_vpns_ins_entries:
  assumes "unique_vpns es"
  shows "unique_vpns (ins_entries es t vpn ppn d)"
proof (cases "0 \<le> find_loop es vpn 0")
  case True
  from find_loop_pos(2) [OF True] assms show ?thesis
    unfolding unique_vpns_iff ins_entries_def Let_def
    by (simp add: True no_clash_update_same matches_def)
next
  case False
  then have "\<forall>j<length es. \<not> matches es vpn j"
    using find_loop_neg [of es vpn] by simp
  with assms False show ?thesis
    unfolding unique_vpns_iff ins_entries_def Let_def
    by (simp add: no_clash_update_fresh)
qed

lemma unique_vpns_reset:
  "unique_vpns es \<Longrightarrow> unique_vpns (es[k := reset_entry (es ! k)])"
  unfolding unique_vpns_iff by (rule no_clash_update_invalid) (simp_all add: reset_entry_def)

lemma unique_vpns_touch:
  assumes "unique_vpns es" "k < length es" "valid (es ! k)"
  shows "unique_vpns (es[k := (es ! k)\<lparr>last_access := t, dirty := b\<rparr>])"
  using assms unfolding unique_vpns_iff by (intro no_clash_update_same) simp_all

lemma ball_update: "\<forall>e\<in>set es. P e \<Longrightarrow> P x \<Longrightarrow> \<forall>e\<in>set (es[k := x]). P e"
  using set_update_subset_insert [of es k x] by auto

lemma reset_invalid_ins_entries:
  assumes "reset_invalid es"
  shows "reset_invalid (ins_entries es t vpn ppn d)"
proof (cases "0 \<le> find_loop es vpn 0")
  case True
  with assms show ?thesis
    unfolding reset_invalid_def ins_entries_def Let_def
    by (simp only: if_True) (rule ball_update, simp_all)
next
  case False
  with assms show ?thesis
    unfolding reset_invalid_def ins_entries_def Let_def
    by (simp only: if_False) (rule ball_update, simp_all)
qed

lemma reset_invalid_reset:
  "reset_invalid es \<Longrightarrow> reset_invalid (es[k := reset_entry (es ! k)])"
  unfolding reset_invalid_def by (rule ball_update) (simp_all add: reset_entry_def)

lemma reset_invalid_touch:
  assumes "reset_invalid es" "valid (es ! k)"
  shows "reset_invalid (es[k := (es ! k)\<lparr>last_access := t, dirty := b\<rparr>])"
  using assms unfolding reset_invalid_def by (intro ball_update) simp_all

lemma length_ins_entries [simp]: "length (ins_entries es t vpn ppn d) = length es"
  by (simp add: ins_entries_def Let_def)

lemma tlb_inv_init: "tlb_inv c (tlb_init c s)"
  by (simp add: tlb_inv_def tlb_init_def unique_vpns_def reset_invalid_def zero_entry_def)

lemma tlb_inv_start: "tlb_inv c (start c)"
  by (simp add: tlb_inv_def start_def unique_vpns_def reset_invalid_def zero_entry_def)

lemma tlb_inv_l2_insert: "tlb_inv c s \<Longrightarrow> tlb_inv c (l2_insert c vpn ppn d s)"
  by (simp add: tlb_inv_def unique_vpns_ins_entries reset_invalid_ins_entries)

lemma tlb_inv_spill: "tlb_inv c s \<Longrightarrow> tlb_inv c (spill c v s)"
  by (simp add: spill_def tlb_inv_l2_insert split: option.split)

lemma tlb_inv_l1_insert: 
  assumes "tlb_inv c s"
  shows "tlb_inv c (l1_insert c vpn ppn d s)"
proof -
  from tlb_inv_spill [OF assms, of "evicted (tlb_l1 s) vpn"] assms show ?thesis
    by (simp add: tlb_inv_def unique_vpns_ins_entries reset_invalid_ins_entries)
qed

lemma tlb_inv_translate:
  assumes "tlb_inv c s"
  shows "tlb_inv c (snd (tlb_translate c va op s))"
proof (cases "0 \<le> l1_find s (va_to_vpn c va)")
  case True
  then have "nat (l1_find s (va_to_vpn c va)) < length (tlb_l1 s)"
    and "matches (tlb_l1 s) (va_to_vpn c va) (nat (l1_find s (va_to_vpn c va)))"
    unfolding l1_find_def by (rule find_loop_pos)+
  with assms show ?thesis
    by (simp add: translate_l1_hit [OF True] tlb_inv_def unique_vpns_touch reset_invalid_touch
        matches_def)
next
  case miss1: False
  show ?thesis
  proof (cases "0 \<le> l2_find s (va_to_vpn c va)")
    case True
    then have "nat (l2_find s (va_to_vpn c va)) < length (tlb_l2 s)"
      and "matches (tlb_l2 s) (va_to_vpn c va) (nat (l2_find s (va_to_vpn c va)))"
      unfolding l2_find_def by (rule find_loop_pos)+
    with assms show ?thesis
      unfolding translate_l2_hit [OF miss1 True] snd_conv
      by (intro tlb_inv_l1_insert)
         (simp add: tlb_inv_def unique_vpns_touch reset_invalid_touch matches_def)
  next
    case False
    from assms show ?thesis
      unfolding translate_miss [OF miss1 False] snd_conv
      by (intro tlb_inv_l1_insert tlb_inv_l2_insert) (simp add: tlb_inv_def)
  qed
qed

lemma tlb_inv_invalidate_l1:
  assumes "tlb_inv c s"
  shows "tlb_inv c (invalidate_l1_loop c vpn 0 s)"
proof (cases "find_loop (tlb_l1 s) vpn 0 < 0")
  case True
  with assms show ?thesis by (simp add: invalidate_l1_loop_eq)
next
  case False
  from tlb_inv_l2_insert [OF assms] assms False show ?thesis
    by (simp add: invalidate_l1_loop_eq Let_def l1_upd_def tlb_inv_def unique_vpns_reset
        reset_invalid_reset)
qed

lemma tlb_inv_invalidate_l2:
  assumes "tlb_inv c s"
  shows "tlb_inv c (invalidate_l2_loop c vpn 0 s)"
proof (cases "find_loop (tlb_l2 s) vpn 0 < 0")
  case True
  with assms show ?thesis by (simp add: invalidate_l2_loop_eq)
next
  case False
  from assms False show ?thesis
    by (simp add: invalidate_l2_loop_eq Let_def l2_upd_def tlb_inv_def unique_vpns_reset
        reset_invalid_reset write_back_tlb_entry_def)
qed

lemma tlb_inv_invalidate: "tlb_inv c s \<Longrightarrow> tlb_inv c (tlb_invalidate c vpn s)"
  unfolding tlb_invalidate_def
  by (intro tlb_inv_invalidate_l2 tlb_inv_invalidate_l1) (simp add: tlb_inv_def increment_time_def)

lemma tlb_inv_step: "tlb_inv c s \<Longrightarrow> tlb_inv c (step c s x)"
  by (cases x) (simp_all add: tlb_inv_init tlb_inv_translate tlb_inv_invalidate)

lemma tlb_inv_run: "tlb_inv c s \<Longrightarrow> tlb_inv c (run c ops s)"
  unfolding run_def by (induction ops arbitrary: s) (simp_all add: tlb_inv_step)

section \<open>Counting the holders of a VPN\<close>

lemma distinct_map_filter_le1:
  "distinct (map f ys) \<Longrightarrow> length (filter (\<lambda>e. f e = v) ys) \<le> 1"
proof (induction ys)
  case Nil
  show ?case by simp
next
  case (Cons y ys)
  show ?case
  proof (cases "f y = v")
    case True
    with Cons.prems have "v \<notin> f ` set ys" by simp
    then have "\<forall>e\<in>set ys. f e \<noteq> v" by blast
    then have "filter (\<lambda>e. f e = v) ys = []" by (simp add: filter_empty_conv)
    with True show ?thesis by simp
  next
    case False
    with Cons show ?thesis by simp
  qed
qed

lemma unique_vpns_count:
  assumes "unique_vpns es"
  shows "length (filter (\<lambda>e. valid e \<and> virtual_page_number e = vpn) es) \<le> 1"
  using distinct_map_filter_le1 [OF assms [unfolded unique_vpns_def], of vpn] by simp

section \<open>No duplicate live mappings within a level\<close>

text \<open>
  Claim C4. After \<^verbatim>\<open>tlb_init\<close> and any sequence of initialisations, translations and
  invalidations, each level holds every VPN in at most one valid entry: the VPNs of the
  valid entries of a level are pairwise distinct, and for every VPN at most one entry of
  the level is valid and holds it. The capacities are positive, as C array sizes are.
\<close>

theorem unique_vpn_per_level:
  assumes "0 < TLB_L1_SIZE c" and "0 < TLB_L2_SIZE c"
  shows "unique_vpns (tlb_l1 (run c ops (tlb_init c s)))
    \<and> unique_vpns (tlb_l2 (run c ops (tlb_init c s)))
    \<and> (\<forall>vpn. length (filter (\<lambda>e. valid e \<and> virtual_page_number e = vpn)
                  (tlb_l1 (run c ops (tlb_init c s)))) \<le> 1)
    \<and> (\<forall>vpn. length (filter (\<lambda>e. valid e \<and> virtual_page_number e = vpn)
                  (tlb_l2 (run c ops (tlb_init c s)))) \<le> 1)"
proof -
  have "tlb_inv c (run c ops (tlb_init c s))"
    by (rule tlb_inv_run) (rule tlb_inv_init)
  then have "unique_vpns (tlb_l1 (run c ops (tlb_init c s)))"
    and "unique_vpns (tlb_l2 (run c ops (tlb_init c s)))"
    by (simp_all add: tlb_inv_def)
  then show ?thesis
    by (intro conjI allI unique_vpns_count)
qed

text \<open>Five operations with capacities 2 and 2, an initialisation among them.\<close>

theorem unique_vpn_per_level_witness:
  "unique_vpns (tlb_l1 (run lab_config
      [Translate 4096 OP_WRITE, Translate 8192 OP_READ, Invalidate 1, Initialize,
       Translate 12288 OP_WRITE] (tlb_init lab_config (start lab_config))))
   \<and> unique_vpns (tlb_l2 (run lab_config
      [Translate 4096 OP_WRITE, Translate 8192 OP_READ, Invalidate 1, Initialize,
       Translate 12288 OP_WRITE] (tlb_init lab_config (start lab_config))))"
proof -
  have a: "0 < TLB_L1_SIZE lab_config" and b: "0 < TLB_L2_SIZE lab_config"
    by (simp_all add: lab_config_def)
  note r = unique_vpn_per_level [OF a b, of "[Translate 4096 OP_WRITE, Translate 8192 OP_READ,
    Invalidate 1, Initialize, Translate 12288 OP_WRITE]" "start lab_config"]
  from r [THEN conjunct1] r [THEN conjunct2, THEN conjunct1] show ?thesis
    by (rule conjI)
qed

section \<open>What eviction and invalidation reset\<close>

lemma evict_l1_slot:
  assumes "k < length (tlb_l1 t)"
  shows "tlb_l1 (l1_evict_entry c (int k) t) ! k
     = (tlb_l1 t ! k)\<lparr>valid := False, dirty := False, last_access := 0\<rparr>"
  using assms by (simp add: l1_evict_entry_def Let_def l1_upd_def reset_entry_def)

lemma evict_l2_slot:
  assumes "k < length (tlb_l2 t)"
  shows "tlb_l2 (l2_evict_entry c (int k) t) ! k
     = (tlb_l2 t ! k)\<lparr>valid := False, dirty := False, last_access := 0\<rparr>"
  using assms
  by (simp add: l2_evict_entry_def Let_def l2_upd_def reset_entry_def write_back_tlb_entry_def)

lemma invalidate_l1_slot:
  assumes "find_loop (tlb_l1 t) vpn 0 = int k"
  shows "tlb_l1 (invalidate_l1_loop c vpn 0 t) ! k
     = (tlb_l1 t ! k)\<lparr>valid := False, dirty := False, last_access := 0\<rparr>"
proof -
  from assms find_loop_pos(1) [of "tlb_l1 t" vpn] have "k < length (tlb_l1 t)" by simp
  with assms show ?thesis
    by (simp add: invalidate_l1_loop_eq Let_def l1_upd_def reset_entry_def)
qed

lemma invalidate_l2_slot:
  assumes "find_loop (tlb_l2 t) vpn 0 = int k"
  shows "tlb_l2 (invalidate_l2_loop c vpn 0 t) ! k
     = (tlb_l2 t ! k)\<lparr>valid := False, dirty := False, last_access := 0\<rparr>"
proof -
  from assms find_loop_pos(1) [of "tlb_l2 t" vpn] have "k < length (tlb_l2 t)" by simp
  with assms show ?thesis
    by (simp add: invalidate_l2_loop_eq Let_def l2_upd_def reset_entry_def
        write_back_tlb_entry_def)
qed

text \<open>
  Claim C5, as the code has it. In every state reached from \<^verbatim>\<open>tlb_init\<close>, an invalid
  entry of either level has \<open>dirty = False\<close> and \<open>last_access = 0\<close>. Eviction
  (\<^verbatim>\<open>l1_evict_entry\<close>, \<^verbatim>\<open>l2_evict_entry\<close>) and the two loops of \<^verbatim>\<open>tlb_invalidate\<close>
  assign \<open>valid\<close>, \<open>dirty\<close> and \<open>last_access\<close> of the affected slot and nothing else: its
  VPN and PPN stay as they were.
\<close>

theorem invalid_entries_reset:
  assumes "0 < TLB_L1_SIZE c" and "0 < TLB_L2_SIZE c"
  shows "reset_invalid (tlb_l1 (run c ops (tlb_init c s)))
    \<and> reset_invalid (tlb_l2 (run c ops (tlb_init c s)))
    \<and> (\<forall>t k. k < length (tlb_l1 t) \<longrightarrow>
          tlb_l1 (l1_evict_entry c (int k) t) ! k
            = (tlb_l1 t ! k)\<lparr>valid := False, dirty := False, last_access := 0\<rparr>)
    \<and> (\<forall>t k. k < length (tlb_l2 t) \<longrightarrow>
          tlb_l2 (l2_evict_entry c (int k) t) ! k
            = (tlb_l2 t ! k)\<lparr>valid := False, dirty := False, last_access := 0\<rparr>)
    \<and> (\<forall>t vpn k. l1_find t vpn = int k \<longrightarrow>
          tlb_l1 (invalidate_l1_loop c vpn 0 t) ! k
            = (tlb_l1 t ! k)\<lparr>valid := False, dirty := False, last_access := 0\<rparr>)
    \<and> (\<forall>t vpn k. l2_find t vpn = int k \<longrightarrow>
          tlb_l2 (invalidate_l2_loop c vpn 0 t) ! k
            = (tlb_l2 t ! k)\<lparr>valid := False, dirty := False, last_access := 0\<rparr>)"
proof -
  have "tlb_inv c (run c ops (tlb_init c s))"
    by (rule tlb_inv_run) (rule tlb_inv_init)
  then have "reset_invalid (tlb_l1 (run c ops (tlb_init c s)))"
    and "reset_invalid (tlb_l2 (run c ops (tlb_init c s)))"
    by (simp_all add: tlb_inv_def)
  then show ?thesis
    by (intro conjI allI impI evict_l1_slot evict_l2_slot invalidate_l1_slot invalidate_l2_slot)
       (simp_all add: l1_find_def l2_find_def)
qed

text \<open>A write miss followed by the invalidation of its page.\<close>

theorem invalid_entries_reset_witness:
  "reset_invalid (tlb_l1 (run lab_config [Translate 4096 OP_WRITE, Invalidate 1]
      (tlb_init lab_config (start lab_config))))
   \<and> reset_invalid (tlb_l2 (run lab_config [Translate 4096 OP_WRITE, Invalidate 1]
      (tlb_init lab_config (start lab_config))))"
proof -
  have a: "0 < TLB_L1_SIZE lab_config" and b: "0 < TLB_L2_SIZE lab_config"
    by (simp_all add: lab_config_def)
  note r = invalid_entries_reset [OF a b, of "[Translate 4096 OP_WRITE, Invalidate 1]"
    "start lab_config"]
  from r [THEN conjunct1] r [THEN conjunct2, THEN conjunct1] show ?thesis
    by (rule conjI)
qed

text \<open>
  Claim C5 as stated fails: after translating an address of page 1 and invalidating page 1,
  slot 0 of L1 is invalid and still holds VPN 1 and PPN 17.
\<close>

theorem invalid_entry_keeps_page_numbers:
  "\<not> canonical_invalid (tlb_l1 (run lab_config [Initialize, Translate 4096 OP_READ, Invalidate 1]
       (start lab_config)))
   \<and> tlb_l1 (run lab_config [Initialize, Translate 4096 OP_READ, Invalidate 1]
       (start lab_config)) ! 0
     = \<lparr>valid = False, dirty = False, last_access = 0, virtual_page_number = 1,
        physical_page_number = 17\<rparr>"
  by code_simp

section \<open>Translation: the L1 hit\<close>

text \<open>
  Claim C1, as the code has it. When a valid L1 entry holds the VPN of the address,
  \<^verbatim>\<open>tlb_translate\<close> returns the PPN of the first such entry composed with the offset of
  the request, and the state changes in exactly four places: that entry gets
  \<open>last_access = lru_tick + 1\<close> and becomes dirty on a write, \<^verbatim>\<open>tlb_l1_hits\<close> and
  \<^verbatim>\<open>lru_tick\<close> are incremented, and the clock is charged the L1 latency, which is the only
  call to a collaborator. The L2 array, \<^verbatim>\<open>lru_tick2\<close> and the L2 counters are as before;
  neither the resolver nor the write-back sink is called.
\<close>

theorem tlb_translate_l1_hit:
  assumes "holds (tlb_l1 s) (va_to_vpn c va)"
  shows "\<exists>k<length (tlb_l1 s).
     l1_find s (va_to_vpn c va) = int k
     \<and> valid (tlb_l1 s ! k) \<and> virtual_page_number (tlb_l1 s ! k) = va_to_vpn c va
     \<and> tlb_translate c va op s =
        (compose_pa c (physical_page_number (tlb_l1 s ! k)) (va_offset c va),
         s\<lparr>tlb_l1 := (tlb_l1 s)[k := (tlb_l1 s ! k)
               \<lparr>last_access := lru_tick s + 1,
                dirty := (dirty (tlb_l1 s ! k) \<or> op = OP_WRITE)\<rparr>],
           tlb_l1_hits := tlb_l1_hits s + 1,
           lru_tick := lru_tick s + 1,
           trace := trace s @ [IncrementTime (TLB_L1_LATENCY_NS c)]\<rparr>)"
proof -
  from assms have pos: "0 \<le> l1_find s (va_to_vpn c va)"
    by (simp add: holds_iff_find l1_find_def)
  define k where "k = nat (l1_find s (va_to_vpn c va))"
  from pos have fk: "l1_find s (va_to_vpn c va) = int k" by (simp add: k_def)
  from pos have "k < length (tlb_l1 s)" and "matches (tlb_l1 s) (va_to_vpn c va) k"
    unfolding k_def l1_find_def by (rule find_loop_pos)+
  moreover note translate_l1_hit [OF pos, of op, folded k_def] fk
  ultimately show ?thesis
    by (auto simp add: matches_def)
qed

text \<open>A write to page 1 after a read miss on it: the hit returns frame 17 with offset 4.\<close>

theorem tlb_translate_l1_hit_witness:
  "holds (tlb_l1 (run lab_config [Translate 4096 OP_READ] (start lab_config)))
     (va_to_vpn lab_config 4100)
   \<and> fst (tlb_translate lab_config 4100 OP_WRITE
        (run lab_config [Translate 4096 OP_READ] (start lab_config))) = 69636
   \<and> tlb_l1_hits (snd (tlb_translate lab_config 4100 OP_WRITE
        (run lab_config [Translate 4096 OP_READ] (start lab_config)))) = 1"
proof -
  define s1 where "s1 = run lab_config [Translate 4096 OP_READ] (start lab_config)"
  have h: "holds (tlb_l1 s1) (va_to_vpn lab_config 4100)"
    unfolding s1_def by code_simp
  have f: "l1_find s1 (va_to_vpn lab_config 4100) = 0"
    unfolding s1_def by code_simp
  from tlb_translate_l1_hit [OF h, of OP_WRITE] f
  have eq: "tlb_translate lab_config 4100 OP_WRITE s1 =
        (compose_pa lab_config (physical_page_number (tlb_l1 s1 ! 0)) (va_offset lab_config 4100),
         s1\<lparr>tlb_l1 := (tlb_l1 s1)[0 := (tlb_l1 s1 ! 0)
               \<lparr>last_access := lru_tick s1 + 1,
                dirty := (dirty (tlb_l1 s1 ! 0) \<or> OP_WRITE = OP_WRITE)\<rparr>],
           tlb_l1_hits := tlb_l1_hits s1 + 1,
           lru_tick := lru_tick s1 + 1,
           trace := trace s1 @ [IncrementTime (TLB_L1_LATENCY_NS lab_config)]\<rparr>)"
    by auto
  have p: "compose_pa lab_config (physical_page_number (tlb_l1 s1 ! 0))
      (va_offset lab_config 4100) = 69636"
    unfolding s1_def by code_simp
  have q: "tlb_l1_hits s1 = 0"
    unfolding s1_def by code_simp
  from h eq p q show ?thesis
    unfolding s1_def [symmetric] by simp
qed

text \<open>
  Claim C1 as stated fails in its last part: the clock is an external collaborator, and an
  L1 hit calls it.
\<close>

theorem l1_hit_charges_clock:
  "holds (tlb_l1 (run lab_config [Initialize, Translate 4096 OP_READ] (start lab_config)))
     (va_to_vpn lab_config 4096)
   \<and> trace (snd (tlb_translate lab_config 4096 OP_READ
        (run lab_config [Initialize, Translate 4096 OP_READ] (start lab_config))))
     = trace (run lab_config [Initialize, Translate 4096 OP_READ] (start lab_config))
       @ [IncrementTime (TLB_L1_LATENCY_NS lab_config)]"
  by code_simp

section \<open>Invalidation of an absent VPN\<close>

text \<open>
  Claim C8. When no valid entry of either level holds the VPN, \<^verbatim>\<open>tlb_invalidate\<close>
  changes nothing but the trace, to which it adds the one charge of the sum of the two
  latencies to the clock: the six counters and both arrays are as before, and the
  write-back sink is not called.
\<close>

theorem tlb_invalidate_absent:
  assumes "\<not> holds (tlb_l1 s) vpn" and "\<not> holds (tlb_l2 s) vpn"
  shows "tlb_invalidate c vpn s
     = s\<lparr>trace := trace s @ [IncrementTime (TLB_L1_LATENCY_NS c + TLB_L2_LATENCY_NS c)]\<rparr>"
  using assms
  by (simp add: tlb_invalidate_def invalidate_l1_loop_eq invalidate_l2_loop_eq
      increment_time_def holds_iff_find Let_def)


text \<open>Invalidating page 2 while both levels hold page 1 only.\<close>

theorem tlb_invalidate_absent_witness:
  "\<not> holds (tlb_l1 (run lab_config [Translate 4096 OP_WRITE] (start lab_config))) 2
   \<and> \<not> holds (tlb_l2 (run lab_config [Translate 4096 OP_WRITE] (start lab_config))) 2
   \<and> tlb_invalidate lab_config 2 (run lab_config [Translate 4096 OP_WRITE] (start lab_config))
     = (run lab_config [Translate 4096 OP_WRITE] (start lab_config))
        \<lparr>trace := [IncrementTime 1, IncrementTime 10, PageTableTranslate 4096 OP_WRITE,
                   IncrementTime 11]\<rparr>"
proof -
  define s1 where "s1 = run lab_config [Translate 4096 OP_WRITE] (start lab_config)"
  have a: "\<not> holds (tlb_l1 s1) 2" and b: "\<not> holds (tlb_l2 s1) 2"
    unfolding s1_def by code_simp+
  have t: "trace s1 @ [IncrementTime (TLB_L1_LATENCY_NS lab_config + TLB_L2_LATENCY_NS lab_config)]
     = [IncrementTime 1, IncrementTime 10, PageTableTranslate 4096 OP_WRITE, IncrementTime 11]"
    unfolding s1_def by code_simp
  from tlb_invalidate_absent [OF a b, of lab_config] a b show ?thesis
    unfolding s1_def [symmetric] t by simp
qed

section \<open>Lookup after an insertion\<close>

lemma find_loop_update_fresh:
  assumes "\<not> holds es vpn" "k < length es" "valid x" "virtual_page_number x = vpn"
  shows "find_loop (es[k := x]) vpn 0 = int k"
proof (rule find_loop_first)
  show "k < length (es[k := x])" using assms(2) by simp
  show "matches (es[k := x]) vpn k" using assms by (simp add: matches_def)
  show "\<not> matches (es[k := x]) vpn j" if "j < k" for j
    using assms(1,2) that by (auto simp add: holds_iff_matches matches_def)
qed

lemma holds_update_other:
  assumes "\<not> holds es vpn" "valid x \<longrightarrow> virtual_page_number x \<noteq> vpn"
  shows "\<not> holds (es[k := x]) vpn"
  using assms set_update_subset_insert [of es k x] unfolding holds_def by blast

lemma ins_entries_absent:
  assumes "\<not> holds es vpn"
  shows "ins_entries es t vpn ppn d = es[nat (choose_victim es) :=
     \<lparr>valid = True, dirty = d, last_access = t + 1, virtual_page_number = vpn,
      physical_page_number = ppn\<rparr>]"
  using assms by (simp add: ins_entries_def holds_iff_find Let_def)

lemma evicted_absent:
  assumes "\<not> holds es vpn"
  shows "evicted es vpn = (if valid (es ! nat (choose_victim es)) \<and> dirty (es ! nat (choose_victim es))
     then Some (es ! nat (choose_victim es)) else None)"
  using assms by (simp add: evicted_def holds_iff_find Let_def)

lemma evicted_present: "holds es vpn \<Longrightarrow> evicted es vpn = None"
  by (simp add: evicted_def holds_iff_find)

lemma ins_entries_present:
  assumes "holds es vpn"
  shows "ins_entries es t vpn ppn d = es[nat (find_loop es vpn 0) :=
     (es ! nat (find_loop es vpn 0))\<lparr>physical_page_number := ppn,
        dirty := (dirty (es ! nat (find_loop es vpn 0)) \<or> d), last_access := t + 1,
        valid := True\<rparr>]"
  using assms by (simp add: ins_entries_def holds_iff_find Let_def)

lemma holds_ins_entries_other:
  assumes "\<not> holds es vpn" "vpn' \<noteq> vpn"
  shows "\<not> holds (ins_entries es t vpn' ppn d) vpn"
proof (cases "holds es vpn'")
  case True
  then have "0 \<le> find_loop es vpn' 0" by (simp add: holds_iff_find)
  from find_loop_pos(2) [OF this] assms show ?thesis
    unfolding ins_entries_present [OF True]
    by (intro holds_update_other) (simp_all add: matches_def)
next
  case False
  from assms show ?thesis
    unfolding ins_entries_absent [OF False]
    by (intro holds_update_other) simp_all
qed

text \<open>The slot and the entry that an insertion of an absent VPN writes.\<close>

lemma find_ins_entries_absent:
  assumes "\<not> holds es vpn" "es \<noteq> []"
  shows "find_loop (ins_entries es t vpn ppn d) vpn 0 = choose_victim es"
    and "ins_entries es t vpn ppn d ! nat (choose_victim es) =
      \<lparr>valid = True, dirty = d, last_access = t + 1, virtual_page_number = vpn,
       physical_page_number = ppn\<rparr>"
proof -
  from assms(2) have r: "nat (choose_victim es) < length es" by (rule choose_victim_range)
  from find_loop_update_fresh [OF assms(1) r, of _ ] choose_victim_nonneg [of es]
  show "find_loop (ins_entries es t vpn ppn d) vpn 0 = choose_victim es"
    unfolding ins_entries_absent [OF assms(1)] by simp
  from r show "ins_entries es t vpn ppn d ! nat (choose_victim es) =
      \<lparr>valid = True, dirty = d, last_access = t + 1, virtual_page_number = vpn,
       physical_page_number = ppn\<rparr>"
    unfolding ins_entries_absent [OF assms(1)] by simp
qed

lemma find_ins_entries_present:
  assumes "holds es vpn"
  shows "find_loop (ins_entries es t vpn ppn d) vpn 0 = find_loop es vpn 0"
    and "ins_entries es t vpn ppn d ! nat (find_loop es vpn 0) =
      (es ! nat (find_loop es vpn 0))\<lparr>physical_page_number := ppn,
        dirty := (dirty (es ! nat (find_loop es vpn 0)) \<or> d), last_access := t + 1\<rparr>"
proof -
  from assms have pos: "0 \<le> find_loop es vpn 0" by (simp add: holds_iff_find)
  note p = find_loop_pos [OF pos]
  have "find_loop (ins_entries es t vpn ppn d) vpn 0 = int (nat (find_loop es vpn 0))"
    unfolding ins_entries_present [OF assms]
  proof (rule find_loop_first)
    show "nat (find_loop es vpn 0) < length (es[nat (find_loop es vpn 0) :=
      (es ! nat (find_loop es vpn 0))\<lparr>physical_page_number := ppn,
        dirty := (dirty (es ! nat (find_loop es vpn 0)) \<or> d), last_access := t + 1,
        valid := True\<rparr>])"
      using p(1) by simp
    show "matches (es[nat (find_loop es vpn 0) :=
      (es ! nat (find_loop es vpn 0))\<lparr>physical_page_number := ppn,
        dirty := (dirty (es ! nat (find_loop es vpn 0)) \<or> d), last_access := t + 1,
        valid := True\<rparr>]) vpn (nat (find_loop es vpn 0))"
      using p(1,2) by (simp add: matches_def)
    show "\<not> matches (es[nat (find_loop es vpn 0) :=
      (es ! nat (find_loop es vpn 0))\<lparr>physical_page_number := ppn,
        dirty := (dirty (es ! nat (find_loop es vpn 0)) \<or> d), last_access := t + 1,
        valid := True\<rparr>]) vpn j" if "j < nat (find_loop es vpn 0)" for j
      using p(3) [OF that] that by (simp add: matches_def)
  qed
  with pos show "find_loop (ins_entries es t vpn ppn d) vpn 0 = find_loop es vpn 0" by simp
  from p(1,2) show "ins_entries es t vpn ppn d ! nat (find_loop es vpn 0) =
      (es ! nat (find_loop es vpn 0))\<lparr>physical_page_number := ppn,
        dirty := (dirty (es ! nat (find_loop es vpn 0)) \<or> d), last_access := t + 1\<rparr>"
    unfolding ins_entries_present [OF assms] by (simp add: matches_def)
qed

lemma write_backs_map: "\<exists>w. write_backs c v = map WriteBackTlbEntry w"
proof (cases v)
  case None
  then have "write_backs c v = map WriteBackTlbEntry []" by (simp add: write_backs_def)
  then show ?thesis ..
next
  case (Some e)
  then have "write_backs c v = map WriteBackTlbEntry [compose_pa c (physical_page_number e) 0]"
    by (simp add: write_backs_def)
  then show ?thesis ..
qed

section \<open>Eviction\<close>

lemma unique_find:
  assumes "unique_vpns es" "k < length es" "valid (es ! k)" "virtual_page_number (es ! k) = vpn"
  shows "find_loop es vpn 0 = int k"
proof (rule find_loop_first)
  show "k < length es" by fact
  show "matches es vpn k" using assms(3,4) by (simp add: matches_def)
  show "\<not> matches es vpn j" if "j < k" for j
  proof
    assume "matches es vpn j"
    with assms that have "j = k"
      unfolding unique_vpns_iff no_clash_def matches_def by auto
    with that show False by simp
  qed
qed

lemma l2_evict_dirty:
  assumes "j < length (tlb_l2 s)" "valid (tlb_l2 s ! j)" "dirty (tlb_l2 s ! j)"
  shows "l2_evict_entry c (int j) s = s\<lparr>tlb_l2 := (tlb_l2 s)[j := reset_entry (tlb_l2 s ! j)],
     trace := trace s @ [WriteBackTlbEntry (compose_pa c (physical_page_number (tlb_l2 s ! j)) 0)]\<rparr>"
  using assms by (simp add: l2_evict_entry_def Let_def l2_upd_def write_back_tlb_entry_def)

lemma l2_evict_clean:
  assumes "\<not> (valid (tlb_l2 s ! j) \<and> dirty (tlb_l2 s ! j))"
  shows "l2_evict_entry c (int j) s = s\<lparr>tlb_l2 := (tlb_l2 s)[j := reset_entry (tlb_l2 s ! j)]\<rparr>"
  using assms by (auto simp add: l2_evict_entry_def Let_def l2_upd_def)

lemma l1_evict_clean:
  assumes "\<not> (valid (tlb_l1 s ! k) \<and> dirty (tlb_l1 s ! k))"
  shows "l1_evict_entry c (int k) s = s\<lparr>tlb_l1 := (tlb_l1 s)[k := reset_entry (tlb_l1 s ! k)]\<rparr>"
  using assms by (auto simp add: l1_evict_entry_def Let_def l1_upd_def)

lemma l1_evict_dirty:
  assumes "valid (tlb_l1 s ! k)" "dirty (tlb_l1 s ! k)"
  shows "l1_evict_entry c (int k) s =
     (l2_insert c (virtual_page_number (tlb_l1 s ! k)) (physical_page_number (tlb_l1 s ! k)) True s)
       \<lparr>tlb_l1 := (tlb_l1 s)[k := reset_entry (tlb_l1 s ! k)]\<rparr>"
  using assms by (simp add: l1_evict_entry_def Let_def l1_upd_def)

text \<open>After an insertion into a non-empty level, the level holds the VPN with the PPN; the
  entry is dirty when the flag is set.\<close>

lemma ins_entries_holds:
  assumes "es \<noteq> []"
  shows "\<exists>i<length es. find_loop (ins_entries es t vpn ppn d) vpn 0 = int i
     \<and> valid (ins_entries es t vpn ppn d ! i)
     \<and> virtual_page_number (ins_entries es t vpn ppn d ! i) = vpn
     \<and> physical_page_number (ins_entries es t vpn ppn d ! i) = ppn
     \<and> last_access (ins_entries es t vpn ppn d ! i) = t + 1
     \<and> (d \<longrightarrow> dirty (ins_entries es t vpn ppn d ! i))"
proof (cases "holds es vpn")
  case True
  then have pos: "0 \<le> find_loop es vpn 0" by (simp add: holds_iff_find)
  note p = find_loop_pos [OF pos]
  show ?thesis
  proof (intro exI conjI)
    show "nat (find_loop es vpn 0) < length es" by (rule p(1))
    show "find_loop (ins_entries es t vpn ppn d) vpn 0 = int (nat (find_loop es vpn 0))"
      using pos by (simp add: find_ins_entries_present(1) [OF True])
  qed (use p(2) in \<open>simp_all add: find_ins_entries_present(2) [OF True] matches_def\<close>)
next
  case False
  from assms have r: "nat (choose_victim es) < length es" by (rule choose_victim_range)
  show ?thesis
  proof (intro exI conjI)
    show "nat (choose_victim es) < length es" by (rule r)
    show "find_loop (ins_entries es t vpn ppn d) vpn 0 = int (nat (choose_victim es))"
      using choose_victim_nonneg [of es] by (simp add: find_ins_entries_absent(1) [OF False assms])
  qed (simp_all add: find_ins_entries_absent(2) [OF False assms])
qed

text \<open>
  Claim C3, as the code has it. Evicting a valid dirty L1 slot is the insertion of its
  (VPN, PPN) pair into L2 with the dirty flag set, followed by the reset of the slot; L2 then
  holds the VPN in a valid dirty entry with that PPN. The evicted entry itself is never
  handed to the write-back sink, but the insertion into L2 evicts an L2 victim when L2
  does not hold the VPN, and the sink is called for that victim, once, when it is valid
  and dirty. Evicting a valid dirty L2 slot calls the sink exactly once, with the PPN of
  the slot composed with offset 0. Evicting a slot that is not valid and dirty only resets
  it: no insertion into L2, no call to the sink.
\<close>

theorem eviction_routing:
  assumes "k < length (tlb_l1 s)" and "j < length (tlb_l2 s)"
  shows "(valid (tlb_l1 s ! k) \<and> dirty (tlb_l1 s ! k) \<longrightarrow>
       l1_evict_entry c (int k) s =
         (l2_insert c (virtual_page_number (tlb_l1 s ! k)) (physical_page_number (tlb_l1 s ! k))
            True s)\<lparr>tlb_l1 := (tlb_l1 s)[k := reset_entry (tlb_l1 s ! k)]\<rparr>
       \<and> (\<exists>i<length (tlb_l2 s).
             l2_find (l1_evict_entry c (int k) s) (virtual_page_number (tlb_l1 s ! k)) = int i
             \<and> valid (tlb_l2 (l1_evict_entry c (int k) s) ! i)
             \<and> dirty (tlb_l2 (l1_evict_entry c (int k) s) ! i)
             \<and> virtual_page_number (tlb_l2 (l1_evict_entry c (int k) s) ! i)
                 = virtual_page_number (tlb_l1 s ! k)
             \<and> physical_page_number (tlb_l2 (l1_evict_entry c (int k) s) ! i)
                 = physical_page_number (tlb_l1 s ! k))
       \<and> trace (l1_evict_entry c (int k) s) = trace s @
            (if holds (tlb_l2 s) (virtual_page_number (tlb_l1 s ! k)) then []
             else if valid (tlb_l2 s ! nat (l2_choose_victim s))
                     \<and> dirty (tlb_l2 s ! nat (l2_choose_victim s))
             then [WriteBackTlbEntry (compose_pa c
                     (physical_page_number (tlb_l2 s ! nat (l2_choose_victim s))) 0)]
             else []))
    \<and> (valid (tlb_l2 s ! j) \<and> dirty (tlb_l2 s ! j) \<longrightarrow>
       l2_evict_entry c (int j) s = s\<lparr>tlb_l2 := (tlb_l2 s)[j := reset_entry (tlb_l2 s ! j)],
         trace := trace s @
           [WriteBackTlbEntry (compose_pa c (physical_page_number (tlb_l2 s ! j)) 0)]\<rparr>)
    \<and> (\<not> (valid (tlb_l1 s ! k) \<and> dirty (tlb_l1 s ! k)) \<longrightarrow>
       l1_evict_entry c (int k) s = s\<lparr>tlb_l1 := (tlb_l1 s)[k := reset_entry (tlb_l1 s ! k)]\<rparr>)
    \<and> (\<not> (valid (tlb_l2 s ! j) \<and> dirty (tlb_l2 s ! j)) \<longrightarrow>
       l2_evict_entry c (int j) s = s\<lparr>tlb_l2 := (tlb_l2 s)[j := reset_entry (tlb_l2 s ! j)]\<rparr>)"
proof (intro conjI impI)
  assume vd: "valid (tlb_l1 s ! k) \<and> dirty (tlb_l1 s ! k)"
  then have v: "valid (tlb_l1 s ! k)" and d: "dirty (tlb_l1 s ! k)" by simp_all
  note eq = l1_evict_dirty [OF v d, of c]
  show "l1_evict_entry c (int k) s =
         (l2_insert c (virtual_page_number (tlb_l1 s ! k)) (physical_page_number (tlb_l1 s ! k))
            True s)\<lparr>tlb_l1 := (tlb_l1 s)[k := reset_entry (tlb_l1 s ! k)]\<rparr>"
    by (rule eq)
  from assms(2) have ne: "tlb_l2 s \<noteq> []" by auto
  from ins_entries_holds [OF ne, of "lru_tick2 s" "virtual_page_number (tlb_l1 s ! k)"
      "physical_page_number (tlb_l1 s ! k)" True]
  show "\<exists>i<length (tlb_l2 s).
             l2_find (l1_evict_entry c (int k) s) (virtual_page_number (tlb_l1 s ! k)) = int i
             \<and> valid (tlb_l2 (l1_evict_entry c (int k) s) ! i)
             \<and> dirty (tlb_l2 (l1_evict_entry c (int k) s) ! i)
             \<and> virtual_page_number (tlb_l2 (l1_evict_entry c (int k) s) ! i)
                 = virtual_page_number (tlb_l1 s ! k)
             \<and> physical_page_number (tlb_l2 (l1_evict_entry c (int k) s) ! i)
                 = physical_page_number (tlb_l1 s ! k)"
    unfolding eq by (simp add: l2_find_def) blast
  show "trace (l1_evict_entry c (int k) s) = trace s @
            (if holds (tlb_l2 s) (virtual_page_number (tlb_l1 s ! k)) then []
             else if valid (tlb_l2 s ! nat (l2_choose_victim s))
                     \<and> dirty (tlb_l2 s ! nat (l2_choose_victim s))
             then [WriteBackTlbEntry (compose_pa c
                     (physical_page_number (tlb_l2 s ! nat (l2_choose_victim s))) 0)]
             else [])"
    unfolding eq
    by (simp add: evicted_absent evicted_present write_backs_def l2_choose_victim_def)
next
  assume "valid (tlb_l2 s ! j) \<and> dirty (tlb_l2 s ! j)"
  with assms(2) show "l2_evict_entry c (int j) s =
       s\<lparr>tlb_l2 := (tlb_l2 s)[j := reset_entry (tlb_l2 s ! j)],
         trace := trace s @
           [WriteBackTlbEntry (compose_pa c (physical_page_number (tlb_l2 s ! j)) 0)]\<rparr>"
    by (simp add: l2_evict_dirty)
next
  assume "\<not> (valid (tlb_l1 s ! k) \<and> dirty (tlb_l1 s ! k))"
  then show "l1_evict_entry c (int k) s
      = s\<lparr>tlb_l1 := (tlb_l1 s)[k := reset_entry (tlb_l1 s ! k)]\<rparr>"
    by (rule l1_evict_clean)
next
  assume "\<not> (valid (tlb_l2 s ! j) \<and> dirty (tlb_l2 s ! j))"
  then show "l2_evict_entry c (int j) s
      = s\<lparr>tlb_l2 := (tlb_l2 s)[j := reset_entry (tlb_l2 s ! j)]\<rparr>"
    by (rule l2_evict_clean)
qed

text \<open>
  Claim C3 as stated fails for L1: in the state reached by the four translations below,
  L1 holds page 1 dirty in slot 0 and L2 is full without page 1; evicting the L1 slot
  inserts page 1 into L2, which evicts page 2 from L2 and writes its frame back.
\<close>

theorem l1_eviction_reaches_sink:
  "valid (tlb_l1 (run lab_config [Initialize, Translate 4096 OP_WRITE, Translate 8192 OP_WRITE,
       Translate 4100 OP_READ, Translate 12288 OP_WRITE] (start lab_config)) ! 0)
   \<and> dirty (tlb_l1 (run lab_config [Initialize, Translate 4096 OP_WRITE, Translate 8192 OP_WRITE,
       Translate 4100 OP_READ, Translate 12288 OP_WRITE] (start lab_config)) ! 0)
   \<and> trace (l1_evict_entry lab_config 0
        (run lab_config [Initialize, Translate 4096 OP_WRITE, Translate 8192 OP_WRITE,
           Translate 4100 OP_READ, Translate 12288 OP_WRITE] (start lab_config)))
     = trace (run lab_config [Initialize, Translate 4096 OP_WRITE, Translate 8192 OP_WRITE,
           Translate 4100 OP_READ, Translate 12288 OP_WRITE] (start lab_config))
       @ [WriteBackTlbEntry 73728]"
  by code_simp

text \<open>An L2 eviction of a valid dirty slot, after two write misses.\<close>

theorem eviction_routing_witness:
  "0 < length (tlb_l1 (run lab_config [Translate 4096 OP_WRITE, Translate 8192 OP_WRITE]
         (start lab_config)))
   \<and> 1 < length (tlb_l2 (run lab_config [Translate 4096 OP_WRITE, Translate 8192 OP_WRITE]
         (start lab_config)))
   \<and> valid (tlb_l2 (run lab_config [Translate 4096 OP_WRITE, Translate 8192 OP_WRITE]
         (start lab_config)) ! 1)
   \<and> dirty (tlb_l2 (run lab_config [Translate 4096 OP_WRITE, Translate 8192 OP_WRITE]
         (start lab_config)) ! 1)
   \<and> trace (l2_evict_entry lab_config 1
        (run lab_config [Translate 4096 OP_WRITE, Translate 8192 OP_WRITE] (start lab_config)))
      = [IncrementTime 1, IncrementTime 10, PageTableTranslate 4096 OP_WRITE,
         IncrementTime 1, IncrementTime 10, PageTableTranslate 8192 OP_WRITE,
         WriteBackTlbEntry 73728]"
proof -
  define s2 where "s2 = run lab_config [Translate 4096 OP_WRITE, Translate 8192 OP_WRITE]
         (start lab_config)"
  have a: "0 < length (tlb_l1 s2)" and b: "1 < length (tlb_l2 s2)"
    and v: "valid (tlb_l2 s2 ! 1)" and d: "dirty (tlb_l2 s2 ! 1)"
    unfolding s2_def by code_simp+
  have t: "trace s2 @ [WriteBackTlbEntry (compose_pa lab_config
        (physical_page_number (tlb_l2 s2 ! 1)) 0)]
      = [IncrementTime 1, IncrementTime 10, PageTableTranslate 4096 OP_WRITE,
         IncrementTime 1, IncrementTime 10, PageTableTranslate 8192 OP_WRITE,
         WriteBackTlbEntry 73728]"
    unfolding s2_def by code_simp
  from eviction_routing [OF a b, of lab_config] v d
  have "l2_evict_entry lab_config (int 1) s2 = s2\<lparr>tlb_l2 := (tlb_l2 s2)[1 := reset_entry (tlb_l2 s2 ! 1)],
         trace := trace s2 @
           [WriteBackTlbEntry (compose_pa lab_config (physical_page_number (tlb_l2 s2 ! 1)) 0)]\<rparr>"
    by blast
  then have "trace (l2_evict_entry lab_config 1 s2) = trace s2 @
           [WriteBackTlbEntry (compose_pa lab_config (physical_page_number (tlb_l2 s2 ! 1)) 0)]"
    by simp
  with a b v d t show ?thesis
    unfolding s2_def [symmetric] by simp
qed

section \<open>Invalidation of a VPN that only L1 holds, dirty\<close>

text \<open>
  Claim C10. Let a valid dirty entry of L1 hold the VPN (the only one, L1 having no
  duplicates) and no valid entry of L2. After the L1 loop of \<^verbatim>\<open>tlb_invalidate\<close>, L2 holds
  the VPN in the slot its victim selection chose, valid and dirty, with the PPN of the L1
  entry. The L2 loop finds it there, so that in the end: both slots are reset, both
  invalidation counters are incremented, and the trace gains the clock charge, then the
  write-back of the L2 victim if that was valid and dirty, then exactly one write-back of
  the PPN of the invalidated entry at offset 0.
\<close>

theorem tlb_invalidate_dirty_l1_only:
  assumes "k < length (tlb_l1 s)" and "valid (tlb_l1 s ! k)" and "dirty (tlb_l1 s ! k)"
    and "virtual_page_number (tlb_l1 s ! k) = vpn"
    and "unique_vpns (tlb_l1 s)"
    and "\<not> holds (tlb_l2 s) vpn" and "tlb_l2 s \<noteq> []"
  shows "l2_find (invalidate_l1_loop c vpn 0
             (increment_time (TLB_L1_LATENCY_NS c + TLB_L2_LATENCY_NS c) s)) vpn
           = l2_choose_victim s
    \<and> tlb_l2 (invalidate_l1_loop c vpn 0
             (increment_time (TLB_L1_LATENCY_NS c + TLB_L2_LATENCY_NS c) s))
         ! nat (l2_choose_victim s)
       = \<lparr>valid = True, dirty = True, last_access = lru_tick2 s + 1,
          virtual_page_number = vpn,
          physical_page_number = physical_page_number (tlb_l1 s ! k)\<rparr>
    \<and> tlb_invalidate c vpn s =
       s\<lparr>tlb_l1 := (tlb_l1 s)[k := reset_entry (tlb_l1 s ! k)],
         tlb_l2 := (tlb_l2 s)[nat (l2_choose_victim s) :=
            \<lparr>valid = False, dirty = False, last_access = 0, virtual_page_number = vpn,
             physical_page_number = physical_page_number (tlb_l1 s ! k)\<rparr>],
         tlb_l1_invalidations := tlb_l1_invalidations s + 1,
         tlb_l2_invalidations := tlb_l2_invalidations s + 1,
         lru_tick2 := lru_tick2 s + 1,
         trace := trace s
           @ [IncrementTime (TLB_L1_LATENCY_NS c + TLB_L2_LATENCY_NS c)]
           @ (if valid (tlb_l2 s ! nat (l2_choose_victim s))
                 \<and> dirty (tlb_l2 s ! nat (l2_choose_victim s))
              then [WriteBackTlbEntry (compose_pa c
                      (physical_page_number (tlb_l2 s ! nat (l2_choose_victim s))) 0)]
              else [])
           @ [WriteBackTlbEntry (compose_pa c (physical_page_number (tlb_l1 s ! k)) 0)]\<rparr>"
proof -
  define s0 where "s0 = increment_time (TLB_L1_LATENCY_NS c + TLB_L2_LATENCY_NS c) s"
  define v where "v = nat (l2_choose_victim s)"
  define ppn where "ppn = physical_page_number (tlb_l1 s ! k)"
  have f1: "find_loop (tlb_l1 s) vpn 0 = int k"
    using assms(5,1,2,4) by (rule unique_find)
  have vr: "v < length (tlb_l2 s)"
    unfolding v_def l2_choose_victim_def using assms(7) by (rule choose_victim_range)
  have vn: "l2_choose_victim s = int v"
    unfolding v_def l2_choose_victim_def using choose_victim_nonneg [of "tlb_l2 s"] by simp
  have s0f: "tlb_l1 s0 = tlb_l1 s" "tlb_l2 s0 = tlb_l2 s" "lru_tick2 s0 = lru_tick2 s"
    by (simp_all add: s0_def increment_time_def)
  define s1 where "s1 = invalidate_l1_loop c vpn 0 s0"
  have s1eq: "s1 = (l1_upd k reset_entry (l2_insert c vpn ppn True s0))
       \<lparr>tlb_l1_invalidations := tlb_l1_invalidations s0 + 1\<rparr>"
    unfolding s1_def using f1 assms(3) by (simp add: invalidate_l1_loop_eq s0f Let_def ppn_def)
  have l2s1: "tlb_l2 s1 = ins_entries (tlb_l2 s) (lru_tick2 s) vpn ppn True"
    unfolding s1eq by (simp add: l1_upd_def s0f)
  have find2: "find_loop (tlb_l2 s1) vpn 0 = int v"
    unfolding l2s1 using find_ins_entries_absent(1) [OF assms(6,7)] vn
    by (simp add: l2_choose_victim_def)
  have ent2: "tlb_l2 s1 ! v = \<lparr>valid = True, dirty = True, last_access = lru_tick2 s + 1,
          virtual_page_number = vpn, physical_page_number = ppn\<rparr>"
    unfolding l2s1 v_def l2_choose_victim_def by (rule find_ins_entries_absent(2) [OF assms(6,7)])
  have inv: "tlb_invalidate c vpn s = invalidate_l2_loop c vpn 0 s1"
    by (simp add: tlb_invalidate_def s1_def s0_def)
  have main: "invalidate_l2_loop c vpn 0 s1 =
       s\<lparr>tlb_l1 := (tlb_l1 s)[k := reset_entry (tlb_l1 s ! k)],
         tlb_l2 := (tlb_l2 s)[v :=
            \<lparr>valid = False, dirty = False, last_access = 0, virtual_page_number = vpn,
             physical_page_number = ppn\<rparr>],
         tlb_l1_invalidations := tlb_l1_invalidations s + 1,
         tlb_l2_invalidations := tlb_l2_invalidations s + 1,
         lru_tick2 := lru_tick2 s + 1,
         trace := trace s
           @ [IncrementTime (TLB_L1_LATENCY_NS c + TLB_L2_LATENCY_NS c)]
           @ (if valid (tlb_l2 s ! v) \<and> dirty (tlb_l2 s ! v)
              then [WriteBackTlbEntry (compose_pa c (physical_page_number (tlb_l2 s ! v)) 0)]
              else [])
           @ [WriteBackTlbEntry (compose_pa c ppn 0)]\<rparr>"
    using find2 ent2 vr
    apply (simp add: invalidate_l2_loop_eq Let_def)
    apply (simp add: s1eq l2_upd_def l1_upd_def write_back_tlb_entry_def reset_entry_def
        l2_insert_eq s0_def increment_time_def ins_entries_absent [OF assms(6)]
        evicted_absent [OF assms(6)] write_backs_def v_def [symmetric] l2_choose_victim_def
        vn [unfolded l2_choose_victim_def])
    done
  from find2 ent2 main show ?thesis
    unfolding inv s1_def s0_def v_def ppn_def l2_find_def
    using vn [unfolded v_def] by simp
qed

text \<open>
  In the state below L1 holds page 1 dirty and L2 holds pages 3 and 2: invalidating page 1
  writes back the frame of page 2 (the L2 victim) and then the frame of page 1.
\<close>

theorem tlb_invalidate_dirty_l1_only_witness:
  "0 < length (tlb_l1 (run lab_config [Translate 4096 OP_WRITE, Translate 8192 OP_WRITE,
       Translate 4100 OP_READ, Translate 12288 OP_WRITE] (start lab_config)))
   \<and> tlb_l1 (run lab_config [Translate 4096 OP_WRITE, Translate 8192 OP_WRITE,
       Translate 4100 OP_READ, Translate 12288 OP_WRITE] (start lab_config)) ! 0
      = \<lparr>valid = True, dirty = True, last_access = 3, virtual_page_number = 1,
         physical_page_number = 17\<rparr>
   \<and> unique_vpns (tlb_l1 (run lab_config [Translate 4096 OP_WRITE, Translate 8192 OP_WRITE,
       Translate 4100 OP_READ, Translate 12288 OP_WRITE] (start lab_config)))
   \<and> \<not> holds (tlb_l2 (run lab_config [Translate 4096 OP_WRITE, Translate 8192 OP_WRITE,
       Translate 4100 OP_READ, Translate 12288 OP_WRITE] (start lab_config))) 1
   \<and> tlb_l1_invalidations (tlb_invalidate lab_config 1
       (run lab_config [Translate 4096 OP_WRITE, Translate 8192 OP_WRITE,
       Translate 4100 OP_READ, Translate 12288 OP_WRITE] (start lab_config))) = 1
   \<and> tlb_l2_invalidations (tlb_invalidate lab_config 1
       (run lab_config [Translate 4096 OP_WRITE, Translate 8192 OP_WRITE,
       Translate 4100 OP_READ, Translate 12288 OP_WRITE] (start lab_config))) = 1
   \<and> trace (tlb_invalidate lab_config 1
       (run lab_config [Translate 4096 OP_WRITE, Translate 8192 OP_WRITE,
       Translate 4100 OP_READ, Translate 12288 OP_WRITE] (start lab_config)))
     = trace (run lab_config [Translate 4096 OP_WRITE, Translate 8192 OP_WRITE,
       Translate 4100 OP_READ, Translate 12288 OP_WRITE] (start lab_config))
       @ [IncrementTime 11, WriteBackTlbEntry 73728, WriteBackTlbEntry 69632]"
proof -
  define s3 where "s3 = run lab_config [Translate 4096 OP_WRITE, Translate 8192 OP_WRITE,
       Translate 4100 OP_READ, Translate 12288 OP_WRITE] (start lab_config)"
  have e: "tlb_l1 s3 ! 0 = \<lparr>valid = True, dirty = True, last_access = 3,
      virtual_page_number = 1, physical_page_number = 17\<rparr>"
    unfolding s3_def by code_simp
  have a: "0 < length (tlb_l1 s3)" and u: "unique_vpns (tlb_l1 s3)"
    and h: "\<not> holds (tlb_l2 s3) 1" and n: "tlb_l2 s3 \<noteq> []"
    unfolding s3_def by code_simp+
  have v: "valid (tlb_l1 s3 ! 0)" and d: "dirty (tlb_l1 s3 ! 0)"
    and p: "virtual_page_number (tlb_l1 s3 ! 0) = 1"
    by (simp_all add: e)
  have i1: "tlb_l1_invalidations s3 = 0" and i2: "tlb_l2_invalidations s3 = 0"
    unfolding s3_def by code_simp+
  have t: "[IncrementTime (TLB_L1_LATENCY_NS lab_config + TLB_L2_LATENCY_NS lab_config)]
           @ (if valid (tlb_l2 s3 ! nat (l2_choose_victim s3))
                 \<and> dirty (tlb_l2 s3 ! nat (l2_choose_victim s3))
              then [WriteBackTlbEntry (compose_pa lab_config
                      (physical_page_number (tlb_l2 s3 ! nat (l2_choose_victim s3))) 0)]
              else [])
           @ [WriteBackTlbEntry (compose_pa lab_config (physical_page_number (tlb_l1 s3 ! 0)) 0)]
     = [IncrementTime 11, WriteBackTlbEntry 73728, WriteBackTlbEntry 69632]"
    unfolding s3_def by code_simp
  note r = tlb_invalidate_dirty_l1_only [OF a v d p u h n, of lab_config,
      THEN conjunct2, THEN conjunct2]
  have "tlb_l1_invalidations (tlb_invalidate lab_config 1 s3) = 1"
    unfolding r by (simp add: i1)
  moreover have "tlb_l2_invalidations (tlb_invalidate lab_config 1 s3) = 1"
    unfolding r by (simp add: i2)
  moreover have "trace (tlb_invalidate lab_config 1 s3)
     = trace s3 @ [IncrementTime 11, WriteBackTlbEntry 73728, WriteBackTlbEntry 69632]"
    unfolding r using t by simp
  ultimately show ?thesis
    using a e u h unfolding s3_def [symmetric] by simp
qed

section \<open>Translation: the miss in both levels\<close>

lemma evicted_vpn:
  assumes "\<not> holds es vpn" "es \<noteq> []" "evicted es vpn = Some e"
  shows "virtual_page_number e \<noteq> vpn"
proof
  assume eq: "virtual_page_number e = vpn"
  from assms(2) have r: "nat (choose_victim es) < length es" by (rule choose_victim_range)
  from assms(1,3) have "e = es ! nat (choose_victim es)" and "valid e"
    by (auto simp add: evicted_absent split: if_splits)
  with r eq have "holds es vpn"
    unfolding holds_def by (metis nth_mem)
  with assms(1) show False by simp
qed

lemma spill_trace: "\<exists>w. trace (spill c v s) = trace s @ map WriteBackTlbEntry w"
proof (cases v)
  case None
  then have "trace (spill c v s) = trace s @ map WriteBackTlbEntry []" by (simp add: spill_def)
  then show ?thesis ..
next
  case (Some e)
  from write_backs_map [of c "evicted (tlb_l2 s) (virtual_page_number e)"]
  obtain w where "write_backs c (evicted (tlb_l2 s) (virtual_page_number e))
      = map WriteBackTlbEntry w" ..
  with Some have "trace (spill c v s) = trace s @ map WriteBackTlbEntry w"
    by (simp add: spill_def)
  then show ?thesis ..
qed

lemma spill_l2_length [simp]: "length (tlb_l2 (spill c v s)) = length (tlb_l2 s)"
  by (simp add: spill_def split: option.split)

lemma spill_l2_absent:
  assumes "\<not> holds (tlb_l2 s) vpn" "\<And>e. v = Some e \<Longrightarrow> virtual_page_number e \<noteq> vpn"
  shows "\<not> holds (tlb_l2 (spill c v s)) vpn"
  using assms by (cases v) (simp_all add: spill_def holds_ins_entries_other)

text \<open>
  Claim C2. When neither level holds the VPN of the address (and both arrays are
  non-empty), \<^verbatim>\<open>tlb_translate\<close> returns what the resolver returned, increments the L1 and
  the L2 miss counter and no hit counter, and calls the collaborators in this order: the
  two clock charges, the resolver once with the original address and access kind, then
  only write-backs of evicted entries. Afterwards each level finds the VPN (the address
  shifted right by \<^verbatim>\<open>PAGE_SIZE_BITS\<close>), in an entry that is valid, is dirty exactly when
  the access is a write, and holds as PPN the resolver's result shifted right by
  \<^verbatim>\<open>PAGE_SIZE_BITS\<close>: the page number, not the address.
\<close>

theorem tlb_translate_full_miss:
  assumes "\<not> holds (tlb_l1 s) (va_to_vpn c va)" and "\<not> holds (tlb_l2 s) (va_to_vpn c va)"
    and "tlb_l1 s \<noteq> []" and "tlb_l2 s \<noteq> []"
  shows "\<exists>k1 k2 wbs. k1 < length (tlb_l1 s) \<and> k2 < length (tlb_l2 s) \<and>
     (let pa = resolver c (trace s @ [IncrementTime (TLB_L1_LATENCY_NS c),
                                      IncrementTime (TLB_L2_LATENCY_NS c)]) va op;
          s' = snd (tlb_translate c va op s)
      in fst (tlb_translate c va op s) = pa
       \<and> va_to_vpn c va = drop_bit (PAGE_SIZE_BITS c) va
       \<and> tlb_l1_misses s' = tlb_l1_misses s + 1
       \<and> tlb_l2_misses s' = tlb_l2_misses s + 1
       \<and> tlb_l1_hits s' = tlb_l1_hits s
       \<and> tlb_l2_hits s' = tlb_l2_hits s
       \<and> trace s' = trace s @ [IncrementTime (TLB_L1_LATENCY_NS c),
                                IncrementTime (TLB_L2_LATENCY_NS c),
                                PageTableTranslate va op] @ map WriteBackTlbEntry wbs
       \<and> l1_find s' (va_to_vpn c va) = int k1
       \<and> tlb_l1 s' ! k1 = \<lparr>valid = True, dirty = (op = OP_WRITE),
            last_access = lru_tick s', virtual_page_number = va_to_vpn c va,
            physical_page_number = drop_bit (PAGE_SIZE_BITS c) pa\<rparr>
       \<and> l2_find s' (va_to_vpn c va) = int k2
       \<and> tlb_l2 s' ! k2 = \<lparr>valid = True, dirty = (op = OP_WRITE),
            last_access = lru_tick2 s', virtual_page_number = va_to_vpn c va,
            physical_page_number = drop_bit (PAGE_SIZE_BITS c) pa\<rparr>)"
proof -
  define vpn where "vpn = va_to_vpn c va"
  define pa where "pa = resolver c (trace s @ [IncrementTime (TLB_L1_LATENCY_NS c),
                                      IncrementTime (TLB_L2_LATENCY_NS c)]) va op"
  define sm where "sm = s\<lparr>tlb_l1_misses := tlb_l1_misses s + 1,
          tlb_l2_misses := tlb_l2_misses s + 1,
          trace := trace s @ [IncrementTime (TLB_L1_LATENCY_NS c),
                              IncrementTime (TLB_L2_LATENCY_NS c),
                              PageTableTranslate va op]\<rparr>"
  define sp where "sp = spill c (evicted (tlb_l1 s) vpn) sm"
  define s' where "s' = l2_insert c vpn (pa_to_ppn c pa) (op = OP_WRITE)
     (l1_insert c vpn (pa_to_ppn c pa) (op = OP_WRITE) sm)"
  have m1: "\<not> 0 \<le> l1_find s (va_to_vpn c va)" and m2: "\<not> 0 \<le> l2_find s (va_to_vpn c va)"
    using assms(1,2) by (simp_all add: holds_iff_find l1_find_def l2_find_def)
  have tr: "tlb_translate c va op s = (pa, s')"
    unfolding translate_miss [OF m1 m2] pa_def s'_def sm_def vpn_def ..
  have smf: "tlb_l1 sm = tlb_l1 s" "tlb_l2 sm = tlb_l2 s" "lru_tick sm = lru_tick s"
    "lru_tick2 sm = lru_tick2 s"
    by (simp_all add: sm_def)
  have a1: "\<not> holds (tlb_l1 s) vpn" and a2: "\<not> holds (tlb_l2 s) vpn"
    using assms(1,2) by (simp_all add: vpn_def)
  have l1': "tlb_l1 s' = ins_entries (tlb_l1 s) (lru_tick s) vpn (pa_to_ppn c pa) (op = OP_WRITE)"
    by (simp add: s'_def smf)
  have t1': "lru_tick s' = lru_tick s + 1"
    by (simp add: s'_def smf)
  have l2': "tlb_l2 s' = ins_entries (tlb_l2 sp) (lru_tick2 sp) vpn (pa_to_ppn c pa) (op = OP_WRITE)"
    by (simp add: s'_def sp_def smf)
  have t2': "lru_tick2 s' = lru_tick2 sp + 1"
    by (simp add: s'_def sp_def smf)
  have ab2: "\<not> holds (tlb_l2 sp) vpn"
    unfolding sp_def
  proof (rule spill_l2_absent)
    show "\<not> holds (tlb_l2 sm) vpn" using a2 by (simp add: smf)
    show "virtual_page_number e \<noteq> vpn" if "evicted (tlb_l1 s) vpn = Some e" for e
      using a1 assms(3) that by (rule evicted_vpn)
  qed
  have len2: "length (tlb_l2 sp) = length (tlb_l2 s)"
    by (simp add: sp_def smf)
  with assms(4) have ne2: "tlb_l2 sp \<noteq> []" by auto
  from spill_trace [of c "evicted (tlb_l1 s) vpn" sm]
  obtain w1 where w1: "trace sp = trace sm @ map WriteBackTlbEntry w1"
    unfolding sp_def ..
  from write_backs_map [of c "evicted (tlb_l2 sp) vpn"]
  obtain w2 where w2: "write_backs c (evicted (tlb_l2 sp) vpn) = map WriteBackTlbEntry w2" ..
  have trc: "trace s' = trace s @ [IncrementTime (TLB_L1_LATENCY_NS c),
                                IncrementTime (TLB_L2_LATENCY_NS c),
                                PageTableTranslate va op] @ map WriteBackTlbEntry (w1 @ w2)"
    using w1 w2 by (simp add: s'_def sp_def [symmetric] smf) (simp add: sm_def)
  define k1 where "k1 = nat (choose_victim (tlb_l1 s))"
  define k2 where "k2 = nat (choose_victim (tlb_l2 sp))"
  have k1r: "k1 < length (tlb_l1 s)"
    unfolding k1_def using assms(3) by (rule choose_victim_range)
  have k2r: "k2 < length (tlb_l2 s)"
    unfolding k2_def len2 [symmetric] using ne2 by (rule choose_victim_range)
  have f1: "l1_find s' vpn = int k1"
    unfolding l1_find_def l1' k1_def
    using find_ins_entries_absent(1) [OF a1 assms(3)] choose_victim_nonneg [of "tlb_l1 s"]
    by simp
  have e1: "tlb_l1 s' ! k1 = \<lparr>valid = True, dirty = (op = OP_WRITE),
            last_access = lru_tick s', virtual_page_number = vpn,
            physical_page_number = drop_bit (PAGE_SIZE_BITS c) pa\<rparr>"
    unfolding l1' k1_def t1' pa_to_ppn_def [symmetric]
    by (rule find_ins_entries_absent(2) [OF a1 assms(3)])
  have f2: "l2_find s' vpn = int k2"
    unfolding l2_find_def l2' k2_def
    using find_ins_entries_absent(1) [OF ab2 ne2] choose_victim_nonneg [of "tlb_l2 sp"]
    by simp
  have e2: "tlb_l2 s' ! k2 = \<lparr>valid = True, dirty = (op = OP_WRITE),
            last_access = lru_tick2 s', virtual_page_number = vpn,
            physical_page_number = drop_bit (PAGE_SIZE_BITS c) pa\<rparr>"
    unfolding l2' k2_def t2' pa_to_ppn_def [symmetric]
    by (rule find_ins_entries_absent(2) [OF ab2 ne2])
  have cnt: "tlb_l1_misses s' = tlb_l1_misses s + 1" "tlb_l2_misses s' = tlb_l2_misses s + 1"
    "tlb_l1_hits s' = tlb_l1_hits s" "tlb_l2_hits s' = tlb_l2_hits s"
    by (simp_all add: s'_def sm_def)
  have vd: "vpn = drop_bit (PAGE_SIZE_BITS c) va"
    by (simp add: vpn_def va_to_vpn_def)
  show ?thesis
    apply (rule exI [of _ k1], rule exI [of _ k2], rule exI [of _ "w1 @ w2"])
    unfolding Let_def tr fst_conv snd_conv pa_def [symmetric] vpn_def [symmetric]
    using k1r k2r trc f1 e1 f2 e2 cnt vd by simp
qed

text \<open>
  The first translation after program start, a write to the address \<open>0x1004\<close>, which the
  resolver maps to \<open>0x11004\<close>: both levels then hold page 1 with frame 17, dirty.
\<close>

theorem tlb_translate_full_miss_witness:
  "\<not> holds (tlb_l1 (start lab_config)) (va_to_vpn lab_config 4100)
   \<and> \<not> holds (tlb_l2 (start lab_config)) (va_to_vpn lab_config 4100)
   \<and> tlb_l1 (start lab_config) \<noteq> [] \<and> tlb_l2 (start lab_config) \<noteq> []
   \<and> fst (tlb_translate lab_config 4100 OP_WRITE (start lab_config)) = 69636
   \<and> tlb_l2_misses (snd (tlb_translate lab_config 4100 OP_WRITE (start lab_config))) = 1
   \<and> trace (snd (tlb_translate lab_config 4100 OP_WRITE (start lab_config)))
      = [IncrementTime 1, IncrementTime 10, PageTableTranslate 4100 OP_WRITE]
   \<and> tlb_l1 (snd (tlb_translate lab_config 4100 OP_WRITE (start lab_config))) ! 0
      = \<lparr>valid = True, dirty = True, last_access = 1, virtual_page_number = 1,
         physical_page_number = 17\<rparr>
   \<and> tlb_l2 (snd (tlb_translate lab_config 4100 OP_WRITE (start lab_config))) ! 0
      = \<lparr>valid = True, dirty = True, last_access = 1, virtual_page_number = 1,
         physical_page_number = 17\<rparr>"
proof -
  define s' where "s' = snd (tlb_translate lab_config 4100 OP_WRITE (start lab_config))"
  have a: "\<not> holds (tlb_l1 (start lab_config)) (va_to_vpn lab_config 4100)"
    and b: "\<not> holds (tlb_l2 (start lab_config)) (va_to_vpn lab_config 4100)"
    and n1: "tlb_l1 (start lab_config) \<noteq> []" and n2: "tlb_l2 (start lab_config) \<noteq> []"
    by code_simp+
  have r: "resolver lab_config (trace (start lab_config)
      @ [IncrementTime (TLB_L1_LATENCY_NS lab_config),
         IncrementTime (TLB_L2_LATENCY_NS lab_config)]) 4100 OP_WRITE = 69636"
    by (simp add: lab_config_def)
  have m: "tlb_l2_misses (start lab_config) = 0" and t0: "trace (start lab_config) = []"
    by (simp_all add: start_def)
  have lat: "TLB_L1_LATENCY_NS lab_config = 1" "TLB_L2_LATENCY_NS lab_config = 10"
    and bits: "PAGE_SIZE_BITS lab_config = 12"
    by (simp_all add: lab_config_def)
  have sh: "drop_bit 12 (69636 :: 64 word) = 17"
    by code_simp
  have v: "va_to_vpn lab_config 4100 = 1"
    by code_simp
  have f1: "l1_find s' 1 = 0" and f2: "l2_find s' 1 = 0"
    and k1: "lru_tick s' = 1" and k2: "lru_tick2 s' = 1"
    and tr: "trace s' = [IncrementTime 1, IncrementTime 10, PageTableTranslate 4100 OP_WRITE]"
    unfolding s'_def by code_simp+
  from tlb_translate_full_miss [OF a b n1 n2, of OP_WRITE]
  obtain j1 j2 where res: "fst (tlb_translate lab_config 4100 OP_WRITE (start lab_config)) = 69636"
    and mis: "tlb_l2_misses s' = 1"
    and g1: "l1_find s' 1 = int j1"
    and e1: "tlb_l1 s' ! j1 = \<lparr>valid = True, dirty = True, last_access = 1,
       virtual_page_number = 1, physical_page_number = 17\<rparr>"
    and g2: "l2_find s' 1 = int j2"
    and e2: "tlb_l2 s' ! j2 = \<lparr>valid = True, dirty = True, last_access = 1,
       virtual_page_number = 1, physical_page_number = 17\<rparr>"
    unfolding Let_def r m s'_def [symmetric] v bits sh k1 k2 by auto
  from g1 f1 have "j1 = 0" by simp
  moreover from g2 f2 have "j2 = 0" by simp
  ultimately show ?thesis
    using a b n1 n2 res mis e1 e2 tr unfolding s'_def [symmetric] by simp
qed

section \<open>The counters\<close>

lemma bumped_unat:
  assumes "bumped a b" "unat a + 1 < 2 ^ 64"
  shows "unat a \<le> unat b \<and> unat b \<le> unat a + 1"
proof (cases "b = a")
  case True
  then show ?thesis by simp
next
  case False
  with assms(1) have "b = a + 1" by (simp add: bumped_def)
  moreover from assms(2) have "unat (a + 1) = unat a + 1"
    by (simp add: unat_word_ariths)
  ultimately show ?thesis by simp
qed

lemma translate_counters:
  "(tlb_l1_hits (snd (tlb_translate c va op s)) = tlb_l1_hits s + 1
      \<and> tlb_l1_misses (snd (tlb_translate c va op s)) = tlb_l1_misses s
      \<and> tlb_l2_hits (snd (tlb_translate c va op s)) = tlb_l2_hits s
      \<and> tlb_l2_misses (snd (tlb_translate c va op s)) = tlb_l2_misses s
    \<or> tlb_l1_hits (snd (tlb_translate c va op s)) = tlb_l1_hits s
      \<and> tlb_l1_misses (snd (tlb_translate c va op s)) = tlb_l1_misses s + 1
      \<and> tlb_l2_hits (snd (tlb_translate c va op s)) = tlb_l2_hits s + 1
      \<and> tlb_l2_misses (snd (tlb_translate c va op s)) = tlb_l2_misses s
    \<or> tlb_l1_hits (snd (tlb_translate c va op s)) = tlb_l1_hits s
      \<and> tlb_l1_misses (snd (tlb_translate c va op s)) = tlb_l1_misses s + 1
      \<and> tlb_l2_hits (snd (tlb_translate c va op s)) = tlb_l2_hits s
      \<and> tlb_l2_misses (snd (tlb_translate c va op s)) = tlb_l2_misses s + 1)
   \<and> tlb_l1_invalidations (snd (tlb_translate c va op s)) = tlb_l1_invalidations s
   \<and> tlb_l2_invalidations (snd (tlb_translate c va op s)) = tlb_l2_invalidations s"
proof (cases "0 \<le> l1_find s (va_to_vpn c va)")
  case True
  show ?thesis by (simp add: translate_l1_hit [OF True])
next
  case m1: False
  show ?thesis
  proof (cases "0 \<le> l2_find s (va_to_vpn c va)")
    case True
    show ?thesis by (simp add: translate_l2_hit [OF m1 True])
  next
    case False
    show ?thesis by (simp add: translate_miss [OF m1 False])
  qed
qed

lemma invalidate_l1_counters:
  "tlb_l1_hits (invalidate_l1_loop c vpn 0 s) = tlb_l1_hits s"
  "tlb_l1_misses (invalidate_l1_loop c vpn 0 s) = tlb_l1_misses s"
  "tlb_l2_hits (invalidate_l1_loop c vpn 0 s) = tlb_l2_hits s"
  "tlb_l2_misses (invalidate_l1_loop c vpn 0 s) = tlb_l2_misses s"
  "tlb_l2_invalidations (invalidate_l1_loop c vpn 0 s) = tlb_l2_invalidations s"
  "tlb_l1_invalidations (invalidate_l1_loop c vpn 0 s)
     = (if holds (tlb_l1 s) vpn then tlb_l1_invalidations s + 1 else tlb_l1_invalidations s)"
  by (simp_all add: invalidate_l1_loop_eq Let_def l1_upd_def holds_iff_find not_less)

lemma invalidate_l2_counters:
  "tlb_l1_hits (invalidate_l2_loop c vpn 0 s) = tlb_l1_hits s"
  "tlb_l1_misses (invalidate_l2_loop c vpn 0 s) = tlb_l1_misses s"
  "tlb_l2_hits (invalidate_l2_loop c vpn 0 s) = tlb_l2_hits s"
  "tlb_l2_misses (invalidate_l2_loop c vpn 0 s) = tlb_l2_misses s"
  "tlb_l1_invalidations (invalidate_l2_loop c vpn 0 s) = tlb_l1_invalidations s"
  "tlb_l2_invalidations (invalidate_l2_loop c vpn 0 s)
     = (if holds (tlb_l2 s) vpn then tlb_l2_invalidations s + 1 else tlb_l2_invalidations s)"
  by (simp_all add: invalidate_l2_loop_eq Let_def l2_upd_def holds_iff_find not_less
      write_back_tlb_entry_def)

lemma invalidate_counters:
  "tlb_l1_hits (tlb_invalidate c vpn s) = tlb_l1_hits s"
  "tlb_l1_misses (tlb_invalidate c vpn s) = tlb_l1_misses s"
  "tlb_l2_hits (tlb_invalidate c vpn s) = tlb_l2_hits s"
  "tlb_l2_misses (tlb_invalidate c vpn s) = tlb_l2_misses s"
  "bumped (tlb_l1_invalidations s) (tlb_l1_invalidations (tlb_invalidate c vpn s))"
  "bumped (tlb_l2_invalidations s) (tlb_l2_invalidations (tlb_invalidate c vpn s))"
  by (simp_all add: tlb_invalidate_def invalidate_l1_counters invalidate_l2_counters
      increment_time_def bumped_def)

lemma step_bumped:
  assumes "x \<noteq> Initialize"
  shows "bumped (tlb_l1_hits s) (tlb_l1_hits (step c s x)) \<and>
    bumped (tlb_l1_misses s) (tlb_l1_misses (step c s x)) \<and>
    bumped (tlb_l1_invalidations s) (tlb_l1_invalidations (step c s x)) \<and>
    bumped (tlb_l2_hits s) (tlb_l2_hits (step c s x)) \<and>
    bumped (tlb_l2_misses s) (tlb_l2_misses (step c s x)) \<and>
    bumped (tlb_l2_invalidations s) (tlb_l2_invalidations (step c s x))"
proof (cases x)
  case Initialize
  with assms show ?thesis by simp
next
  case (Translate va op)
  from translate_counters [of c va op s] show ?thesis
    unfolding Translate step.simps bumped_def by auto
next
  case (Invalidate vpn)
  show ?thesis
    unfolding Invalidate step.simps
    by (simp add: invalidate_counters) (simp add: bumped_def)
qed

lemma run_Cons: "run c (x # ops) s = run c ops (step c s x)"
  by (simp add: run_def)

lemma run_counter_mono:
  fixes f :: "tlb_state \<Rightarrow> 64 word"
  assumes st: "\<And>s x. x \<noteq> Initialize \<Longrightarrow> bumped (f s) (f (step c s x))"
  shows "Initialize \<notin> set ops \<Longrightarrow> unat (f s) + length ops < 2 ^ 64 \<Longrightarrow>
     unat (f s) \<le> unat (f (run c ops s)) \<and> unat (f (run c ops s)) \<le> unat (f s) + length ops"
proof (induction ops arbitrary: s)
  case Nil
  show ?case by (simp add: run_def)
next
  case (Cons x ops)
  from Cons.prems have x: "x \<noteq> Initialize" and rest: "Initialize \<notin> set ops" by auto
  from Cons.prems have small: "unat (f s) + 1 < 2 ^ 64" by simp
  from bumped_unat [OF st [OF x] small]
  have b: "unat (f s) \<le> unat (f (step c s x))" "unat (f (step c s x)) \<le> unat (f s) + 1"
    by simp_all
  with Cons.prems have "unat (f (step c s x)) + length ops < 2 ^ 64" by simp
  from Cons.IH [OF rest this] b show ?case
    unfolding run_Cons by simp
qed

lemma holds_touch:
  assumes "holds es vpn" "k < length es" "valid (es ! k)"
  shows "holds (es[k := (es ! k)\<lparr>last_access := t, dirty := b\<rparr>]) vpn"
proof -
  from assms(1) obtain j where j: "j < length es" "matches es vpn j"
    by (auto simp add: holds_iff_matches)
  with assms(2) have "matches (es[k := (es ! k)\<lparr>last_access := t, dirty := b\<rparr>]) vpn j"
    by (cases "j = k") (simp_all add: matches_def)
  with j(1) show ?thesis
    by (auto simp add: holds_iff_matches)
qed

lemma l1_hits_iter:
  assumes "holds (tlb_l1 s) (va_to_vpn c va)"
  shows "holds (tlb_l1 (run c (replicate n (Translate va op)) s)) (va_to_vpn c va)
     \<and> tlb_l1_hits (run c (replicate n (Translate va op)) s) = tlb_l1_hits s + of_nat n"
  using assms
proof (induction n arbitrary: s)
  case 0
  then show ?case by (simp add: run_def)
next
  case (Suc n)
  from Suc.prems have pos: "0 \<le> l1_find s (va_to_vpn c va)"
    by (simp add: holds_iff_find l1_find_def)
  from pos have r: "nat (l1_find s (va_to_vpn c va)) < length (tlb_l1 s)"
    and m: "matches (tlb_l1 s) (va_to_vpn c va) (nat (l1_find s (va_to_vpn c va)))"
    unfolding l1_find_def by (rule find_loop_pos)+
  have h: "holds (tlb_l1 (step c s (Translate va op))) (va_to_vpn c va)"
    using holds_touch [OF Suc.prems r] m
    by (simp add: translate_l1_hit [OF pos] matches_def)
  have t: "tlb_l1_hits (step c s (Translate va op)) = tlb_l1_hits s + 1"
    by (simp add: translate_l1_hit [OF pos])
  from Suc.IH [OF h] t show ?case
    by (simp add: run_Cons)
qed

text \<open>
  Claim C6, as the code has it. A call to \<^verbatim>\<open>tlb_translate\<close> in any state \<open>t\<close> adds one
  to exactly one of the L1 hit and L1 miss counters; with the L1 hit counter no L2 counter
  changes, with the L1 miss counter exactly one of the L2 hit and L2 miss counters gets
  one added; the invalidation counters stay. The counters are \<^verbatim>\<open>uint64_t\<close> and
  \<^verbatim>\<open>tlb_init\<close> sets them to zero, so that they are non-decreasing over a sequence of
  translations and invalidations that contains no initialisation and is too short to wrap
  the counter.
\<close>

theorem counters_step_and_monotone:
  assumes "Initialize \<notin> set ops"
  shows "(tlb_l1_hits (snd (tlb_translate c va op t)) = tlb_l1_hits t + 1
        \<and> tlb_l1_misses (snd (tlb_translate c va op t)) = tlb_l1_misses t
        \<and> tlb_l2_hits (snd (tlb_translate c va op t)) = tlb_l2_hits t
        \<and> tlb_l2_misses (snd (tlb_translate c va op t)) = tlb_l2_misses t
      \<or> tlb_l1_hits (snd (tlb_translate c va op t)) = tlb_l1_hits t
        \<and> tlb_l1_misses (snd (tlb_translate c va op t)) = tlb_l1_misses t + 1
        \<and> tlb_l2_hits (snd (tlb_translate c va op t)) = tlb_l2_hits t + 1
        \<and> tlb_l2_misses (snd (tlb_translate c va op t)) = tlb_l2_misses t
      \<or> tlb_l1_hits (snd (tlb_translate c va op t)) = tlb_l1_hits t
        \<and> tlb_l1_misses (snd (tlb_translate c va op t)) = tlb_l1_misses t + 1
        \<and> tlb_l2_hits (snd (tlb_translate c va op t)) = tlb_l2_hits t
        \<and> tlb_l2_misses (snd (tlb_translate c va op t)) = tlb_l2_misses t + 1)
    \<and> tlb_l1_invalidations (snd (tlb_translate c va op t)) = tlb_l1_invalidations t
    \<and> tlb_l2_invalidations (snd (tlb_translate c va op t)) = tlb_l2_invalidations t
    \<and> (unat (tlb_l1_hits s) + length ops < 2 ^ 64 \<longrightarrow>
         unat (tlb_l1_hits s) \<le> unat (tlb_l1_hits (run c ops s)))
    \<and> (unat (tlb_l1_misses s) + length ops < 2 ^ 64 \<longrightarrow>
         unat (tlb_l1_misses s) \<le> unat (tlb_l1_misses (run c ops s)))
    \<and> (unat (tlb_l1_invalidations s) + length ops < 2 ^ 64 \<longrightarrow>
         unat (tlb_l1_invalidations s) \<le> unat (tlb_l1_invalidations (run c ops s)))
    \<and> (unat (tlb_l2_hits s) + length ops < 2 ^ 64 \<longrightarrow>
         unat (tlb_l2_hits s) \<le> unat (tlb_l2_hits (run c ops s)))
    \<and> (unat (tlb_l2_misses s) + length ops < 2 ^ 64 \<longrightarrow>
         unat (tlb_l2_misses s) \<le> unat (tlb_l2_misses (run c ops s)))
    \<and> (unat (tlb_l2_invalidations s) + length ops < 2 ^ 64 \<longrightarrow>
         unat (tlb_l2_invalidations s) \<le> unat (tlb_l2_invalidations (run c ops s)))"
proof (intro conjI impI)
  note tc = translate_counters [of c va op t]
  from tc show "tlb_l1_hits (snd (tlb_translate c va op t)) = tlb_l1_hits t + 1
        \<and> tlb_l1_misses (snd (tlb_translate c va op t)) = tlb_l1_misses t
        \<and> tlb_l2_hits (snd (tlb_translate c va op t)) = tlb_l2_hits t
        \<and> tlb_l2_misses (snd (tlb_translate c va op t)) = tlb_l2_misses t
      \<or> tlb_l1_hits (snd (tlb_translate c va op t)) = tlb_l1_hits t
        \<and> tlb_l1_misses (snd (tlb_translate c va op t)) = tlb_l1_misses t + 1
        \<and> tlb_l2_hits (snd (tlb_translate c va op t)) = tlb_l2_hits t + 1
        \<and> tlb_l2_misses (snd (tlb_translate c va op t)) = tlb_l2_misses t
      \<or> tlb_l1_hits (snd (tlb_translate c va op t)) = tlb_l1_hits t
        \<and> tlb_l1_misses (snd (tlb_translate c va op t)) = tlb_l1_misses t + 1
        \<and> tlb_l2_hits (snd (tlb_translate c va op t)) = tlb_l2_hits t
        \<and> tlb_l2_misses (snd (tlb_translate c va op t)) = tlb_l2_misses t + 1"
    by (rule conjunct1)
  from tc show "tlb_l1_invalidations (snd (tlb_translate c va op t)) = tlb_l1_invalidations t"
    by simp
  from tc show "tlb_l2_invalidations (snd (tlb_translate c va op t)) = tlb_l2_invalidations t"
    by simp
next
  assume "unat (tlb_l1_hits s) + length ops < 2 ^ 64"
  with run_counter_mono [of tlb_l1_hits c ops s] step_bumped assms
  show "unat (tlb_l1_hits s) \<le> unat (tlb_l1_hits (run c ops s))" by blast
next
  assume "unat (tlb_l1_misses s) + length ops < 2 ^ 64"
  with run_counter_mono [of tlb_l1_misses c ops s] step_bumped assms
  show "unat (tlb_l1_misses s) \<le> unat (tlb_l1_misses (run c ops s))" by blast
next
  assume "unat (tlb_l1_invalidations s) + length ops < 2 ^ 64"
  with run_counter_mono [of tlb_l1_invalidations c ops s] step_bumped assms
  show "unat (tlb_l1_invalidations s) \<le> unat (tlb_l1_invalidations (run c ops s))" by blast
next
  assume "unat (tlb_l2_hits s) + length ops < 2 ^ 64"
  with run_counter_mono [of tlb_l2_hits c ops s] step_bumped assms
  show "unat (tlb_l2_hits s) \<le> unat (tlb_l2_hits (run c ops s))" by blast
next
  assume "unat (tlb_l2_misses s) + length ops < 2 ^ 64"
  with run_counter_mono [of tlb_l2_misses c ops s] step_bumped assms
  show "unat (tlb_l2_misses s) \<le> unat (tlb_l2_misses (run c ops s))" by blast
next
  assume "unat (tlb_l2_invalidations s) + length ops < 2 ^ 64"
  with run_counter_mono [of tlb_l2_invalidations c ops s] step_bumped assms
  show "unat (tlb_l2_invalidations s) \<le> unat (tlb_l2_invalidations (run c ops s))" by blast
qed

text \<open>
  Claim C6 as stated fails in its first part: an initialisation decreases a counter, and
  so does the hit that follows \<open>2 ^ 64 - 1\<close> hits.
\<close>

theorem counters_not_monotone:
  "tlb_l1_misses (run lab_config [Translate 4096 OP_READ, Initialize] (start lab_config))
     < tlb_l1_misses (run lab_config [Translate 4096 OP_READ] (start lab_config))
   \<and> tlb_l1_hits (run lab_config
         (Translate 4096 OP_READ # replicate (2 ^ 64) (Translate 4096 OP_READ))
         (start lab_config))
     < tlb_l1_hits (run lab_config
         (Translate 4096 OP_READ # replicate (2 ^ 64 - 1) (Translate 4096 OP_READ))
         (start lab_config))"
proof
  show "tlb_l1_misses (run lab_config [Translate 4096 OP_READ, Initialize] (start lab_config))
     < tlb_l1_misses (run lab_config [Translate 4096 OP_READ] (start lab_config))"
    by code_simp
  define s1 where "s1 = step lab_config (start lab_config) (Translate 4096 OP_READ)"
  have h: "holds (tlb_l1 s1) (va_to_vpn lab_config 4096)"
    unfolding s1_def by code_simp
  have z: "tlb_l1_hits s1 = 0"
    unfolding s1_def by code_simp
  have a: "tlb_l1_hits (run lab_config (replicate (2 ^ 64) (Translate 4096 OP_READ)) s1) = 0"
    using l1_hits_iter [OF h, of "2 ^ 64" OP_READ] z by simp
  have b: "tlb_l1_hits (run lab_config (replicate (2 ^ 64 - 1) (Translate 4096 OP_READ)) s1) = - 1"
    using l1_hits_iter [OF h, of "2 ^ 64 - 1" OP_READ] z by simp
  show "tlb_l1_hits (run lab_config
         (Translate 4096 OP_READ # replicate (2 ^ 64) (Translate 4096 OP_READ))
         (start lab_config))
     < tlb_l1_hits (run lab_config
         (Translate 4096 OP_READ # replicate (2 ^ 64 - 1) (Translate 4096 OP_READ))
         (start lab_config))"
    unfolding run_Cons s1_def [symmetric] a b by (simp add: word_gt_0)
qed

text \<open>Three operations from the start state.\<close>

theorem counters_step_and_monotone_witness:
  "Initialize \<notin> set [Translate 4096 OP_READ, Invalidate 1, Translate 4096 OP_WRITE]
   \<and> unat (tlb_l1_misses (start lab_config))
       + length [Translate 4096 OP_READ, Invalidate 1, Translate 4096 OP_WRITE] < 2 ^ 64
   \<and> unat (tlb_l1_misses (start lab_config))
       \<le> unat (tlb_l1_misses (run lab_config
            [Translate 4096 OP_READ, Invalidate 1, Translate 4096 OP_WRITE] (start lab_config)))"
proof -
  have a: "Initialize \<notin> set [Translate 4096 OP_READ, Invalidate 1, Translate 4096 OP_WRITE]"
    by simp
  have b: "unat (tlb_l1_misses (start lab_config))
       + length [Translate 4096 OP_READ, Invalidate 1, Translate 4096 OP_WRITE] < 2 ^ 64"
    by (simp add: start_def)
  from counters_step_and_monotone [OF a, of lab_config _ _ _ "start lab_config"] b
  have "unat (tlb_l1_misses (start lab_config))
       \<le> unat (tlb_l1_misses (run lab_config
            [Translate 4096 OP_READ, Invalidate 1, Translate 4096 OP_WRITE] (start lab_config)))"
    by blast
  with a b show ?thesis by blast
qed

section \<open>Victim selection and the LRU order\<close>

lemma first_free_unique: "first_free es k \<Longrightarrow> first_free es k' \<Longrightarrow> k = k'"
  unfolding first_free_iff by (meson linorder_neqE_nat)

lemma least_recent_unique: "least_recent es k \<Longrightarrow> least_recent es k' \<Longrightarrow> k = k'"
  unfolding least_recent_iff by (metis linorder_neqE_nat not_less)

lemma l1_insert_all_fields:
  "tlb_l1 (l1_insert_all c xs s) = ins_all (tlb_l1 s) (lru_tick s) xs"
proof (induction xs arbitrary: s)
  case Nil
  show ?case by (simp add: l1_insert_all_def)
next
  case (Cons x xs)
  obtain vpn ppn d where x: "x = (vpn, ppn, d)" by (cases x) auto
  have "l1_insert_all c (x # xs) s = l1_insert_all c xs (l1_insert c vpn ppn d s)"
    by (simp add: l1_insert_all_def x)
  with Cons.IH [of "l1_insert c vpn ppn d s"] show ?case
    by (simp add: x)
qed

lemma l2_insert_all_fields:
  "tlb_l2 (l2_insert_all c xs s) = ins_all (tlb_l2 s) (lru_tick2 s) xs"
proof (induction xs arbitrary: s)
  case Nil
  show ?case by (simp add: l2_insert_all_def)
next
  case (Cons x xs)
  obtain vpn ppn d where x: "x = (vpn, ppn, d)" by (cases x) auto
  have "l2_insert_all c (x # xs) s = l2_insert_all c xs (l2_insert c vpn ppn d s)"
    by (simp add: l2_insert_all_def x)
  with Cons.IH [of "l2_insert c vpn ppn d s"] show ?case
    by (simp add: x)
qed

lemma ins_all_append:
  "ins_all es t (xs @ ys) = ins_all (ins_all es t xs) (t + of_nat (length xs)) ys"
proof (induction xs arbitrary: es t)
  case Nil
  show ?case by simp
next
  case (Cons x xs)
  obtain vpn ppn d where x: "x = (vpn, ppn, d)" by (cases x) auto
  show ?case
    by (simp add: x Cons.IH ac_simps)
qed

lemma unat_tick:
  fixes t :: "64 word"
  assumes "unat t + i + 1 < 2 ^ 64"
  shows "unat (t + of_nat i + 1) = unat t + i + 1"
proof -
  from assms have i: "unat (of_nat i :: 64 word) = i"
    by (simp add: unat_of_nat)
  from assms have a: "unat (t + of_nat i) = unat t + i"
    using unat_add_lem [of t "of_nat i"] by (simp add: i)
  from assms show ?thesis
    using unat_add_lem [of "t + of_nat i" 1] by (simp add: a)
qed

lemma choose_victim_policy:
  assumes "es \<noteq> []"
  shows "\<exists>k. choose_victim es = int k
     \<and> (if \<exists>e\<in>set es. \<not> valid e then first_free es k else least_recent es k)"
proof (cases "\<exists>e\<in>set es. \<not> valid e")
  case True
  then have "\<exists>j<length es. \<not> valid (es ! j)"
    by (metis in_set_conv_nth)
  from choose_victim_free [OF this] True show ?thesis by simp
next
  case False
  then have "\<forall>j<length es. valid (es ! j)"
    using nth_mem by blast
  from choose_victim_lru [OF assms this] False show ?thesis by simp
qed

lemma length_filter_update:
  assumes "j < length es" "P (es ! j)" "\<not> P x"
  shows "Suc (length (filter P (es[j := x]))) = length (filter P es)"
proof -
  have "length (filter P (es[j := x]))
      = length (filter P (take j es)) + length (filter P (drop (Suc j) es))"
    using assms(1,3) by (simp add: upd_conv_take_nth_drop)
  moreover have "length (filter P es)
      = length (filter P (take j es @ es ! j # drop (Suc j) es))"
    using assms(1) by (simp add: id_take_nth_drop [symmetric])
  ultimately show ?thesis using assms(2) by simp
qed

lemma not_stale_fresh:
  assumes "unat t + i + 1 < 2 ^ 64"
  shows "\<not> stale t (fresh t i x)"
proof -
  have "unat (t + of_nat i + 1) = unat t + i + 1"
    using assms by (rule unat_tick)
  then have "\<not> t + of_nat i + 1 \<le> t"
    unfolding word_le_nat_alt by simp
  then show ?thesis by (simp add: stale_def fresh_def)
qed

lemma ins_all_snoc:
  "ins_all es t (xs @ [x]) =
     ins_entries (ins_all es t xs) (t + of_nat (length xs)) (fst x) (fst (snd x)) (snd (snd x))"
  by (cases x) (simp add: ins_all_append)

text \<open>The victim of a level with a stale entry is stale.\<close>

lemma victim_stale:
  assumes "e \<in> set es" "stale t e"
  shows "stale t (es ! nat (choose_victim es))"
proof -
  from assms(1) have ne: "es \<noteq> []" by auto
  from choose_victim_policy [OF ne] obtain k where k: "choose_victim es = int k"
    "if \<exists>e\<in>set es. \<not> valid e then first_free es k else least_recent es k" by blast
  show ?thesis
  proof (cases "\<exists>e\<in>set es. \<not> valid e")
    case True
    with k(2) have "\<not> valid (es ! k)" by (simp add: first_free_iff)
    with k(1) show ?thesis by (simp add: stale_def)
  next
    case False
    with k(2) have lr: "least_recent es k" by simp
    from assms(1) obtain j where j: "j < length es" "es ! j = e"
      by (auto simp add: in_set_conv_nth)
    from False assms have "last_access e \<le> t" by (auto simp add: stale_def)
    moreover from lr j have "last_access (es ! k) \<le> last_access e"
      by (auto simp add: least_recent_iff)
    ultimately have "last_access (es ! k) \<le> t" by simp
    with k(1) show ?thesis by (simp add: stale_def)
  qed
qed

lemma holds_fresh_mem:
  assumes "fresh t i x \<in> set es"
  shows "holds es (fst x)"
  unfolding holds_def using assms by (intro bexI [of _ "fresh t i x"]) (simp_all add: fresh_def)

lemma filled_absent:
  assumes "filled es t xs es'" "\<not> holds es v" "v \<notin> fst ` set xs"
  shows "\<not> holds es' v"
proof
  assume "holds es' v"
  then obtain e where e: "e \<in> set es'" "valid e" "virtual_page_number e = v"
    by (auto simp add: holds_def)
  from assms(1) e(1) consider "e \<in> set es" | i where "i < length xs" "e = fresh t i (xs ! i)"
    unfolding filled_def by blast
  then show False
  proof cases
    case 1
    with e have "holds es v" by (auto simp add: holds_def)
    with assms(2) show False by simp
  next
    case 2
    with e(3) have "v = fst (xs ! i)" by (simp add: fresh_def)
    with 2(1) have "v \<in> fst ` set xs" by simp
    with assms(3) show False by simp
  qed
qed

lemma filled_step:
  assumes f: "filled es t xs es1"
    and absent: "\<not> holds es (fst x)" "fst x \<notin> fst ` set xs"
    and room: "length xs < length es"
    and small: "unat t + length xs + 1 < 2 ^ 64"
  shows "filled es t (xs @ [x])
     (ins_entries es1 (t + of_nat (length xs)) (fst x) (fst (snd x)) (snd (snd x)))"
proof -
  define k where "k = length xs"
  define j where "j = nat (choose_victim es1)"
  define new where "new = fresh t k x"
  define es' where "es' = ins_entries es1 (t + of_nat k) (fst x) (fst (snd x)) (snd (snd x))"
  from f have len1: "length es1 = length es" and u1: "unique_vpns es1"
    and src: "\<forall>e\<in>set es1. stale t e \<and> e \<in> set es \<or> (\<exists>i<k. e = fresh t i (xs ! i))"
    and pres: "\<forall>i<k. fresh t i (xs ! i) \<in> set es1"
    and cnt: "length (filter (stale t) es1) + k = length es"
    unfolding filled_def k_def by simp_all
  have ab1: "\<not> holds es1 (fst x)"
    using f absent by (rule filled_absent)
  from cnt room have "filter (stale t) es1 \<noteq> []" by (auto simp add: k_def)
  then obtain e0 where e0: "e0 \<in> set es1" "stale t e0"
    by (auto simp add: filter_empty_conv)
  then have ne1: "es1 \<noteq> []" by auto
  have jr: "j < length es1"
    unfolding j_def using ne1 by (rule choose_victim_range)
  have js: "stale t (es1 ! j)"
    unfolding j_def using e0 by (rule victim_stale)
  have es': "es' = es1[j := new]"
    unfolding es'_def ins_entries_absent [OF ab1] j_def new_def fresh_def by simp
  have nn: "\<not> stale t new"
    unfolding new_def using small by (intro not_stale_fresh) (simp add: k_def)
  have "length es' = length es" by (simp add: es' len1)
  moreover have "unique_vpns es'"
    unfolding es'_def using u1 by (rule unique_vpns_ins_entries)
  moreover have "\<forall>e\<in>set es'. stale t e \<and> e \<in> set es
      \<or> (\<exists>i<length (xs @ [x]). e = fresh t i ((xs @ [x]) ! i))"
  proof
    fix e
    assume "e \<in> set es'"
    then have "e = new \<or> e \<in> set es1"
      unfolding es' using set_update_subset_insert [of es1 j new] by auto
    then show "stale t e \<and> e \<in> set es
      \<or> (\<exists>i<length (xs @ [x]). e = fresh t i ((xs @ [x]) ! i))"
    proof
      assume "e = new"
      then have "k < length (xs @ [x]) \<and> e = fresh t k ((xs @ [x]) ! k)"
        by (simp add: new_def k_def)
      then show ?thesis by blast
    next
      assume "e \<in> set es1"
      with src consider "stale t e \<and> e \<in> set es" | i where "i < k" "e = fresh t i (xs ! i)"
        by blast
      then show ?thesis
      proof cases
        case 1
        then show ?thesis by simp
      next
        case 2
        then have "i < length (xs @ [x]) \<and> e = fresh t i ((xs @ [x]) ! i)"
          by (simp add: k_def nth_append)
        then show ?thesis by blast
      qed
    qed
  qed
  moreover have "\<forall>i<length (xs @ [x]). fresh t i ((xs @ [x]) ! i) \<in> set es'"
  proof (intro allI impI)
    fix i
    assume "i < length (xs @ [x])"
    then have "i < k \<or> i = k" by (auto simp add: k_def)
    then consider "i < k" | "i = k" by blast
    then show "fresh t i ((xs @ [x]) ! i) \<in> set es'"
    proof cases
      case 1
      with pres have "fresh t i (xs ! i) \<in> set es1" by simp
      then obtain j' where j': "j' < length es1" "es1 ! j' = fresh t i (xs ! i)"
        by (auto simp add: in_set_conv_nth)
      have "\<not> stale t (fresh t i (xs ! i))"
        using small 1 by (intro not_stale_fresh) (simp add: k_def)
      with js j'(2) have "j' \<noteq> j" by auto
      with j' have "es' ! j' = fresh t i (xs ! i)" "j' < length es'"
        by (simp_all add: es')
      then have "fresh t i (xs ! i) \<in> set es'" by (metis nth_mem)
      with 1 show ?thesis by (simp add: k_def nth_append)
    next
      case 2
      from jr have "es' ! j = new" "j < length es'" by (simp_all add: es')
      then have "new \<in> set es'" by (metis nth_mem)
      with 2 show ?thesis by (simp add: new_def k_def)
    qed
  qed
  moreover have "length (filter (stale t) es') + length (xs @ [x]) = length es"
    using length_filter_update [of j es1 "stale t" new, OF jr js nn] cnt
    by (simp add: es' k_def)
  ultimately show ?thesis
    unfolding filled_def es'_def k_def by blast
qed

lemma filled_ins_all:
  assumes "unique_vpns es" and "\<forall>e\<in>set es. stale t e"
  shows "distinct (map fst xs) \<Longrightarrow> \<forall>x\<in>set xs. \<not> holds es (fst x) \<Longrightarrow>
    length xs \<le> length es \<Longrightarrow> unat t + length xs < 2 ^ 64 \<Longrightarrow>
    filled es t xs (ins_all es t xs)"
proof (induction xs rule: rev_induct)
  case Nil
  have "filter (stale t) es = es" using assms(2) by (simp add: filter_id_conv)
  with assms show ?case by (simp add: filled_def)
next
  case (snoc x xs)
  have f: "filled es t xs (ins_all es t xs)"
    using snoc.prems by (intro snoc.IH) simp_all
  show ?case
    unfolding ins_all_snoc
  proof (rule filled_step [OF f])
    show "\<not> holds es (fst x)" using snoc.prems(2) by simp
    show "fst x \<notin> fst ` set xs" using snoc.prems(1) by auto
    show "length xs < length es" using snoc.prems(3) by simp
    show "unat t + length xs + 1 < 2 ^ 64" using snoc.prems(4) by simp
  qed
qed

lemma lru_order:
  assumes u: "unique_vpns es" and st: "\<forall>e\<in>set es. stale t e"
    and d: "distinct (map fst (x # xs @ [y]))"
    and ab: "\<forall>z\<in>set (x # xs @ [y]). \<not> holds es (fst z)"
    and len: "length (x # xs) = length es"
    and small: "unat t + length es + 1 < 2 ^ 64"
  shows "\<forall>z\<in>set (x # xs). holds (ins_all es t (x # xs)) (fst z)"
    and "\<not> holds (ins_all es t ((x # xs) @ [y])) (fst x)"
    and "\<forall>z\<in>set (xs @ [y]). holds (ins_all es t ((x # xs) @ [y])) (fst z)"
proof -
  define zs where "zs = x # xs"
  define es1 where "es1 = ins_all es t zs"
  define n where "n = length zs"
  define new where "new = fresh t n y"
  have f: "filled es t zs es1"
    unfolding es1_def
  proof (rule filled_ins_all [OF u st])
    show "distinct (map fst zs)" using d by (simp add: zs_def)
    show "\<forall>x\<in>set zs. \<not> holds es (fst x)" using ab by (simp add: zs_def)
    show "length zs \<le> length es" using len by (simp add: zs_def)
    show "unat t + length zs < 2 ^ 64" using small len by (simp add: zs_def)
  qed
  then have len1: "length es1 = length es" and u1: "unique_vpns es1"
    and src: "\<forall>e\<in>set es1. stale t e \<and> e \<in> set es \<or> (\<exists>i<n. e = fresh t i (zs ! i))"
    and pres: "\<forall>i<n. fresh t i (zs ! i) \<in> set es1"
    and cnt: "length (filter (stale t) es1) + n = length es"
    unfolding filled_def n_def by simp_all
  have npos: "0 < n" by (simp add: n_def zs_def)
  have neq: "n = length es" using len by (simp add: n_def zs_def)
  note nlen = neq npos
  show a: "\<forall>z\<in>set (x # xs). holds (ins_all es t (x # xs)) (fst z)"
  proof
    fix z
    assume "z \<in> set (x # xs)"
    then obtain i where i: "i < n" "zs ! i = z"
      unfolding zs_def [symmetric] n_def by (auto simp add: in_set_conv_nth)
    with pres have "fresh t i z \<in> set es1" by auto
    then show "holds (ins_all es t (x # xs)) (fst z)"
      unfolding zs_def [symmetric] es1_def [symmetric] by (rule holds_fresh_mem)
  qed
  from cnt nlen have "filter (stale t) es1 = []" by simp
  then have nost: "\<forall>e\<in>set es1. \<not> stale t e" by (simp add: filter_empty_conv)
  with src have allf: "\<forall>e\<in>set es1. \<exists>i<n. e = fresh t i (zs ! i)" by blast
  from nost have allv: "\<forall>e\<in>set es1. valid e" by (auto simp add: stale_def)
  have vy: "fst y \<notin> fst ` set zs" using d by (auto simp add: zs_def)
  have aby: "\<not> holds es1 (fst y)"
    using f _ vy by (rule filled_absent) (use ab in simp)
  from nlen len1 have ne1: "es1 \<noteq> []" by auto
  have alli: "\<forall>j<length es1. valid (es1 ! j)" using allv nth_mem by blast
  from choose_victim_lru [OF ne1 alli] obtain k where k: "choose_victim es1 = int k"
    "least_recent es1 k" by blast
  then have kr: "k < length es1" by (simp add: least_recent_iff)
  from pres nlen have "fresh t 0 (zs ! 0) \<in> set es1" by simp
  then obtain j0 where j0: "j0 < length es1" "es1 ! j0 = fresh t 0 x"
    by (auto simp add: in_set_conv_nth zs_def)
  from allf kr obtain i where i: "i < n" "es1 ! k = fresh t i (zs ! i)"
    by (metis nth_mem)
  have "last_access (es1 ! k) \<le> last_access (es1 ! j0)"
    using k(2) j0(1) by (simp add: least_recent_iff)
  then have "t + of_nat i + 1 \<le> t + of_nat 0 + 1"
    by (simp add: i(2) j0(2) fresh_def)
  moreover have "unat (t + of_nat i + 1) = unat t + i + 1"
    using small i(1) nlen by (intro unat_tick) simp
  moreover have "unat (t + of_nat 0 + 1) = unat t + 0 + 1"
    using small by (intro unat_tick) simp
  ultimately have "i = 0"
    unfolding word_le_nat_alt by simp
  with i(2) have vk: "es1 ! k = fresh t 0 x" by (simp add: zs_def)
  have fin: "ins_all es t ((x # xs) @ [y]) = es1[k := new]"
    unfolding zs_def [symmetric] ins_all_snoc es1_def [symmetric] ins_entries_absent [OF aby] k(1)
    by (simp add: new_def fresh_def n_def)
  have xy: "fst x \<noteq> fst y" using d by auto
  show "\<not> holds (ins_all es t ((x # xs) @ [y])) (fst x)"
    unfolding fin
  proof
    assume "holds (es1[k := new]) (fst x)"
    then obtain j' where j': "j' < length es1" "matches (es1[k := new]) (fst x) j'"
      by (auto simp add: holds_iff_matches)
    have "j' \<noteq> k"
    proof
      assume "j' = k"
      with j' kr have "virtual_page_number new = fst x" by (simp add: matches_def)
      with xy show False by (simp add: new_def fresh_def)
    qed
    with j' have m: "valid (es1 ! j')" "virtual_page_number (es1 ! j') = fst x"
      by (simp_all add: matches_def)
    from u1 have "no_clash es1" by (simp add: unique_vpns_iff)
    with m j'(1) kr vk have "j' = k"
      unfolding no_clash_def by (simp add: fresh_def)
    with \<open>j' \<noteq> k\<close> show False by simp
  qed
  show "\<forall>z\<in>set (xs @ [y]). holds (ins_all es t ((x # xs) @ [y])) (fst z)"
    unfolding fin
  proof
    fix z
    assume "z \<in> set (xs @ [y])"
    then consider "z = y" | "z \<in> set xs" by auto
    then show "holds (es1[k := new]) (fst z)"
    proof cases
      case 1
      from kr have "new \<in> set (es1[k := new])" by (simp add: set_update_memI)
      then show ?thesis unfolding 1 new_def by (rule holds_fresh_mem)
    next
      case 2
      then obtain i where i: "i < length xs" "xs ! i = z"
        by (auto simp add: in_set_conv_nth)
      then have si: "Suc i < n" "zs ! Suc i = z" by (simp_all add: n_def zs_def)
      with pres have "fresh t (Suc i) z \<in> set es1" by auto
      then obtain j' where j': "j' < length es1" "es1 ! j' = fresh t (Suc i) z"
        by (auto simp add: in_set_conv_nth)
      from d have "fst x \<notin> fst ` set xs" by auto
      with 2 have "fst z \<noteq> fst x" by (metis imageI)
      with j'(2) vk have "j' \<noteq> k" by (auto simp add: fresh_def)
      with j' have "es1[k := new] ! j' = fresh t (Suc i) z" "j' < length (es1[k := new])"
        by simp_all
      then have "fresh t (Suc i) z \<in> set (es1[k := new])" by (metis nth_mem)
      then show ?thesis by (rule holds_fresh_mem)
    qed
  qed
qed

lemma stale_iff: "(\<forall>e\<in>set es. stale t e) \<longleftrightarrow> (\<forall>e\<in>set es. valid e \<longrightarrow> last_access e \<le> t)"
  by (auto simp add: stale_def)

text \<open>
  Claim C7. In a non-empty level, the victim selection returns the lowest index of an
  invalid slot when there is one, and otherwise the lowest index among the slots with the
  smallest \<open>last_access\<close>. Consequently: take a level of capacity \<open>N\<close> without duplicate
  VPNs, whose valid entries were all accessed at the current value of the logical clock of
  the level or before, the clock being \<open>N + 1\<close> steps from wrapping, and \<open>N + 1\<close>
  distinct VPNs that the level does not hold. Inserting them one after the other, the
  first \<open>N\<close> are all in the level after the first \<open>N\<close> insertions, and the last insertion
  evicts the one inserted first and no other of them. Both parts hold for L1
  (\<^verbatim>\<open>l1_choose_victim\<close>, \<^verbatim>\<open>l1_insert\<close>) and for L2 (\<^verbatim>\<open>l2_choose_victim\<close>,
  \<^verbatim>\<open>l2_insert\<close>).
\<close>

theorem victim_selection_lru:
  "(tlb_l1 s \<noteq> [] \<longrightarrow>
      (\<exists>k. l1_choose_victim s = int k
         \<and> (if \<exists>e\<in>set (tlb_l1 s). \<not> valid e then first_free (tlb_l1 s) k
            else least_recent (tlb_l1 s) k)))
   \<and> (tlb_l2 s \<noteq> [] \<longrightarrow>
      (\<exists>k. l2_choose_victim s = int k
         \<and> (if \<exists>e\<in>set (tlb_l2 s). \<not> valid e then first_free (tlb_l2 s) k
            else least_recent (tlb_l2 s) k)))
   \<and> (unique_vpns (tlb_l1 s)
       \<and> (\<forall>e\<in>set (tlb_l1 s). valid e \<longrightarrow> last_access e \<le> lru_tick s)
       \<and> unat (lru_tick s) + length (tlb_l1 s) + 1 < 2 ^ 64
       \<and> length (x # xs) = length (tlb_l1 s)
       \<and> distinct (map fst (x # xs @ [y]))
       \<and> (\<forall>z\<in>set (x # xs @ [y]). \<not> holds (tlb_l1 s) (fst z))
      \<longrightarrow> (\<forall>z\<in>set (x # xs). holds (tlb_l1 (l1_insert_all c (x # xs) s)) (fst z))
        \<and> \<not> holds (tlb_l1 (l1_insert_all c ((x # xs) @ [y]) s)) (fst x)
        \<and> (\<forall>z\<in>set (xs @ [y]). holds (tlb_l1 (l1_insert_all c ((x # xs) @ [y]) s)) (fst z)))
   \<and> (unique_vpns (tlb_l2 s)
       \<and> (\<forall>e\<in>set (tlb_l2 s). valid e \<longrightarrow> last_access e \<le> lru_tick2 s)
       \<and> unat (lru_tick2 s) + length (tlb_l2 s) + 1 < 2 ^ 64
       \<and> length (x # xs) = length (tlb_l2 s)
       \<and> distinct (map fst (x # xs @ [y]))
       \<and> (\<forall>z\<in>set (x # xs @ [y]). \<not> holds (tlb_l2 s) (fst z))
      \<longrightarrow> (\<forall>z\<in>set (x # xs). holds (tlb_l2 (l2_insert_all c (x # xs) s)) (fst z))
        \<and> \<not> holds (tlb_l2 (l2_insert_all c ((x # xs) @ [y]) s)) (fst x)
        \<and> (\<forall>z\<in>set (xs @ [y]). holds (tlb_l2 (l2_insert_all c ((x # xs) @ [y]) s)) (fst z)))"
proof (intro conjI impI)
  assume "tlb_l1 s \<noteq> []"
  then show "\<exists>k. l1_choose_victim s = int k
         \<and> (if \<exists>e\<in>set (tlb_l1 s). \<not> valid e then first_free (tlb_l1 s) k
            else least_recent (tlb_l1 s) k)"
    unfolding l1_choose_victim_def by (rule choose_victim_policy)
next
  assume "tlb_l2 s \<noteq> []"
  then show "\<exists>k. l2_choose_victim s = int k
         \<and> (if \<exists>e\<in>set (tlb_l2 s). \<not> valid e then first_free (tlb_l2 s) k
            else least_recent (tlb_l2 s) k)"
    unfolding l2_choose_victim_def by (rule choose_victim_policy)
next
  assume h: "unique_vpns (tlb_l1 s)
       \<and> (\<forall>e\<in>set (tlb_l1 s). valid e \<longrightarrow> last_access e \<le> lru_tick s)
       \<and> unat (lru_tick s) + length (tlb_l1 s) + 1 < 2 ^ 64
       \<and> length (x # xs) = length (tlb_l1 s)
       \<and> distinct (map fst (x # xs @ [y]))
       \<and> (\<forall>z\<in>set (x # xs @ [y]). \<not> holds (tlb_l1 s) (fst z))"
  then have st: "\<forall>e\<in>set (tlb_l1 s). stale (lru_tick s) e" unfolding stale_iff by blast
  from h have u: "unique_vpns (tlb_l1 s)"
    and small: "unat (lru_tick s) + length (tlb_l1 s) + 1 < 2 ^ 64"
    and len: "length (x # xs) = length (tlb_l1 s)"
    and d: "distinct (map fst (x # xs @ [y]))"
    and ab: "\<forall>z\<in>set (x # xs @ [y]). \<not> holds (tlb_l1 s) (fst z)"
    by blast+
  note r = lru_order [OF u st d ab len small]
  show "\<forall>z\<in>set (x # xs). holds (tlb_l1 (l1_insert_all c (x # xs) s)) (fst z)"
    unfolding l1_insert_all_fields by (rule r(1))
  show "\<not> holds (tlb_l1 (l1_insert_all c ((x # xs) @ [y]) s)) (fst x)"
    unfolding l1_insert_all_fields by (rule r(2))
  show "\<forall>z\<in>set (xs @ [y]). holds (tlb_l1 (l1_insert_all c ((x # xs) @ [y]) s)) (fst z)"
    unfolding l1_insert_all_fields by (rule r(3))
next
  assume h: "unique_vpns (tlb_l2 s)
       \<and> (\<forall>e\<in>set (tlb_l2 s). valid e \<longrightarrow> last_access e \<le> lru_tick2 s)
       \<and> unat (lru_tick2 s) + length (tlb_l2 s) + 1 < 2 ^ 64
       \<and> length (x # xs) = length (tlb_l2 s)
       \<and> distinct (map fst (x # xs @ [y]))
       \<and> (\<forall>z\<in>set (x # xs @ [y]). \<not> holds (tlb_l2 s) (fst z))"
  then have st: "\<forall>e\<in>set (tlb_l2 s). stale (lru_tick2 s) e" unfolding stale_iff by blast
  from h have u: "unique_vpns (tlb_l2 s)"
    and small: "unat (lru_tick2 s) + length (tlb_l2 s) + 1 < 2 ^ 64"
    and len: "length (x # xs) = length (tlb_l2 s)"
    and d: "distinct (map fst (x # xs @ [y]))"
    and ab: "\<forall>z\<in>set (x # xs @ [y]). \<not> holds (tlb_l2 s) (fst z)"
    by blast+
  note r = lru_order [OF u st d ab len small]
  show "\<forall>z\<in>set (x # xs). holds (tlb_l2 (l2_insert_all c (x # xs) s)) (fst z)"
    unfolding l2_insert_all_fields by (rule r(1))
  show "\<not> holds (tlb_l2 (l2_insert_all c ((x # xs) @ [y]) s)) (fst x)"
    unfolding l2_insert_all_fields by (rule r(2))
  show "\<forall>z\<in>set (xs @ [y]). holds (tlb_l2 (l2_insert_all c ((x # xs) @ [y]) s)) (fst z)"
    unfolding l2_insert_all_fields by (rule r(3))
qed

text \<open>
  After two misses both levels are full with pages 1 and 2. Inserting the pages 5, 6 and 7
  evicts page 1, then page 2, then page 5.
\<close>

theorem victim_selection_lru_witness:
  "tlb_l1 (run lab_config [Translate 4096 OP_WRITE, Translate 8192 OP_READ] (start lab_config))
     = [\<lparr>valid = True, dirty = True, last_access = 1, virtual_page_number = 1,
          physical_page_number = 17\<rparr>,
        \<lparr>valid = True, dirty = False, last_access = 2, virtual_page_number = 2,
          physical_page_number = 18\<rparr>]
   \<and> lru_tick (run lab_config [Translate 4096 OP_WRITE, Translate 8192 OP_READ]
        (start lab_config)) = 2
   \<and> l1_choose_victim (run lab_config [Translate 4096 OP_WRITE, Translate 8192 OP_READ]
        (start lab_config)) = 0
   \<and> \<not> holds (tlb_l1 (l1_insert_all lab_config
          (((5, 21, False) # [(6, 22, True)]) @ [(7, 23, False)])
          (run lab_config [Translate 4096 OP_WRITE, Translate 8192 OP_READ]
             (start lab_config)))) 5
   \<and> holds (tlb_l1 (l1_insert_all lab_config
          (((5, 21, False) # [(6, 22, True)]) @ [(7, 23, False)])
          (run lab_config [Translate 4096 OP_WRITE, Translate 8192 OP_READ]
             (start lab_config)))) 6
   \<and> \<not> holds (tlb_l2 (l2_insert_all lab_config
          (((5, 21, False) # [(6, 22, True)]) @ [(7, 23, False)])
          (run lab_config [Translate 4096 OP_WRITE, Translate 8192 OP_READ]
             (start lab_config)))) 5"
proof -
  define s2 where "s2 = run lab_config [Translate 4096 OP_WRITE, Translate 8192 OP_READ]
     (start lab_config)"
  have l1: "tlb_l1 s2
     = [\<lparr>valid = True, dirty = True, last_access = 1, virtual_page_number = 1,
          physical_page_number = 17\<rparr>,
        \<lparr>valid = True, dirty = False, last_access = 2, virtual_page_number = 2,
          physical_page_number = 18\<rparr>]"
    and t1: "lru_tick s2 = 2"
    and l2: "tlb_l2 s2
     = [\<lparr>valid = True, dirty = True, last_access = 1, virtual_page_number = 1,
          physical_page_number = 17\<rparr>,
        \<lparr>valid = True, dirty = False, last_access = 2, virtual_page_number = 2,
          physical_page_number = 18\<rparr>]"
    and t2: "lru_tick2 s2 = 2"
    unfolding s2_def by code_simp+
  have n1: "tlb_l1 s2 \<noteq> []" by (simp add: l1)
  have d: "distinct (map fst ((5 :: va_t, 21 :: 64 word, False) # [(6, 22, True)] @ [(7, 23, False)]))"
    by simp
  have h1: "unique_vpns (tlb_l1 s2)
       \<and> (\<forall>e\<in>set (tlb_l1 s2). valid e \<longrightarrow> last_access e \<le> lru_tick s2)
       \<and> unat (lru_tick s2) + length (tlb_l1 s2) + 1 < 2 ^ 64
       \<and> length ((5 :: va_t, 21 :: 64 word, False) # [(6, 22, True)]) = length (tlb_l1 s2)
       \<and> distinct (map fst ((5 :: va_t, 21 :: 64 word, False) # [(6, 22, True)] @ [(7, 23, False)]))
       \<and> (\<forall>z\<in>set ((5, 21, False) # [(6, 22, True)] @ [(7, 23, False)]).
            \<not> holds (tlb_l1 s2) (fst z))"
    unfolding l1 t1 by (simp add: unique_vpns_def holds_def)
  have h2: "unique_vpns (tlb_l2 s2)
       \<and> (\<forall>e\<in>set (tlb_l2 s2). valid e \<longrightarrow> last_access e \<le> lru_tick2 s2)
       \<and> unat (lru_tick2 s2) + length (tlb_l2 s2) + 1 < 2 ^ 64
       \<and> length ((5 :: va_t, 21 :: 64 word, False) # [(6, 22, True)]) = length (tlb_l2 s2)
       \<and> distinct (map fst ((5 :: va_t, 21 :: 64 word, False) # [(6, 22, True)] @ [(7, 23, False)]))
       \<and> (\<forall>z\<in>set ((5, 21, False) # [(6, 22, True)] @ [(7, 23, False)]).
            \<not> holds (tlb_l2 s2) (fst z))"
    unfolding l2 t2 by (simp add: unique_vpns_def holds_def)
  note r = victim_selection_lru [of s2 "(5, 21, False)" "[(6, 22, True)]" "(7, 23, False)"
      lab_config]
  note r1 = r [THEN conjunct1, THEN mp, OF n1]
  note r3 = r [THEN conjunct2, THEN conjunct2, THEN conjunct1, THEN mp, OF h1]
  note r4 = r [THEN conjunct2, THEN conjunct2, THEN conjunct2, THEN mp, OF h2]
  from r1 obtain k where k: "l1_choose_victim s2 = int k"
    "if \<exists>e\<in>set (tlb_l1 s2). \<not> valid e then first_free (tlb_l1 s2) k
     else least_recent (tlb_l1 s2) k"
    by (elim exE conjE)
  have "\<not> (\<exists>e\<in>set (tlb_l1 s2). \<not> valid e)" by (simp add: l1)
  with k(2) have "least_recent (tlb_l1 s2) k" by simp
  moreover have "least_recent (tlb_l1 s2) 0"
    unfolding s2_def by code_simp
  ultimately have "k = 0" by (rule least_recent_unique)
  with k(1) have v: "l1_choose_victim s2 = 0" by simp
  from r3 have a: "\<not> holds (tlb_l1 (l1_insert_all lab_config
          (((5, 21, False) # [(6, 22, True)]) @ [(7, 23, False)]) s2)) 5"
    by simp
  from r3 have b: "holds (tlb_l1 (l1_insert_all lab_config
          (((5, 21, False) # [(6, 22, True)]) @ [(7, 23, False)]) s2)) 6"
    by simp
  from r4 have c: "\<not> holds (tlb_l2 (l2_insert_all lab_config
          (((5, 21, False) # [(6, 22, True)]) @ [(7, 23, False)]) s2)) 5"
    by simp
  from l1 t1 v a b c show ?thesis
    unfolding s2_def [symmetric] by (intro conjI)
qed

end
